theory Spec2Isabelle
  imports Complex_Main "HOL-Library.AList" "HOL-Library.Product_Lexorder" "HOL-Library.Log_Nat"
begin

section \<open>Common data\<close>

text \<open>
  A bounding box is the list \<open>[x1, y1, x2, y2]\<close> of pixel coordinates; both detectors
  deliver Python ints. Python floats (IoU values, thresholds, wall-clock readings,
  normalised coordinates) are represented by \<open>real\<close>: quotients of pixel-sized
  integers are compared exactly, rounding is not modelled.
\<close>

type_synonym bbox = "int \<times> int \<times> int \<times> int"

datatype py_exception = OSError | IndexError | ValueError | KeyError | ZeroDivisionError

section \<open>RingScreen: the main loop of \<open>emotion_detect_normalize_ai_ver2.py\<close>\<close>

definition TARGET_W :: int where "TARGET_W = 1280"
definition TARGET_H :: int where "TARGET_H = 720"
definition SAMPLE_INTERVAL :: real where "SAMPLE_INTERVAL = 3"
definition SAMPLES_PER_SUMMARY :: nat where "SAMPLES_PER_SUMMARY = 12"

text \<open>The four category strings \<open>'active'\<close>, \<open>'calm'\<close>, \<open>'hesitant'\<close>, \<open>'anxious'\<close>.\<close>

datatype category = Active | Calm | Hesitant | Anxious

definition emotion_to_index :: "string \<Rightarrow> int" where
  "emotion_to_index emo =
     (case map_of [(''neutral'', 0), (''happy'', 1), (''surprise'', 2), (''fear'', 3),
                   (''sad'', 4), (''angry'', 5), (''disgust'', 6)] emo of
        None \<Rightarrow> - 1 | Some i \<Rightarrow> i)"

definition emotion_to_category :: "string \<Rightarrow> category option" where
  "emotion_to_category =
     map_of [(''neutral'', Calm), (''happy'', Active), (''surprise'', Active),
             (''fear'', Anxious), (''sad'', Hesitant), (''angry'', Anxious),
             (''disgust'', Anxious)]"

fun category_to_index :: "category \<Rightarrow> nat" where
  "category_to_index Active = 0"
| "category_to_index Calm = 1"
| "category_to_index Hesitant = 2"
| "category_to_index Anxious = 3"

text \<open>
  The calls \<open>osc_client.send_message(address, args)\<close> of the script: \<open>/face\<close>,
  \<open>/no_face\<close>, \<open>/agent_emotion\<close> and \<open>/agent_word\<close>.
\<close>

datatype osc_msg =
    Face nat real real real real int
  | NoFace
  | AgentEmotion category nat nat nat nat nat
  | AgentWord string

text \<open>
  \<open>send_ai_query\<close>: the outcome of \<open>requests.post\<close> is given from outside. Either the
  request (or the decoding of its body) raises, or it returns a status code and the text
  found under \<open>choices[0].message.content\<close> (\<open>None\<close> when reading it raises). Every
  failure is caught and gives the empty string.
\<close>

datatype ai_reply = Post_raises | Reply int "string option"

text \<open>
  \<open>str.strip()\<close> removes the characters for which \<open>str.isspace\<close> holds; among the
  code points below 256 these are the space, 0x09 to 0x0D, 0x1C to 0x1F, 0x85 and 0xA0.
\<close>

definition is_space :: "char \<Rightarrow> bool" where
  "is_space c = (c \<in> set [CHR '' '', CHR 0x09, CHR 0x0A, CHR 0x0B, CHR 0x0C, CHR 0x0D,
                           CHR 0x1C, CHR 0x1D, CHR 0x1E, CHR 0x1F, CHR 0x85, CHR 0xA0])"

definition strip :: "string \<Rightarrow> string" where
  "strip s = rev (dropWhile is_space (rev (dropWhile is_space s)))"

definition send_ai_query :: "ai_reply \<Rightarrow> string" where
  "send_ai_query reply =
     (case reply of
        Post_raises \<Rightarrow> ''''
      | Reply status body \<Rightarrow>
          if status \<noteq> 200 then ''''
          else (case body of None \<Rightarrow> '''' | Some content \<Rightarrow> strip content))"

record agg_state =
  last_sample :: real
  sample_count :: nat
  counts :: "category \<Rightarrow> nat"

definition zero_counts :: "category \<Rightarrow> nat" where
  "zero_counts = (\<lambda>c. 0)"

text \<open>
  The \<open>/face\<close> message of one resolved track: \<open>cx, cy = x1 + w//2, y1 + h//2\<close>, then the
  true divisions by the frame size.
\<close>

definition face_msg :: "nat \<Rightarrow> bbox \<Rightarrow> string \<Rightarrow> osc_msg" where
  "face_msg tid bb emo =
     (case bb of (x1, y1, x2, y2) \<Rightarrow>
        let w = x2 - x1; h = y2 - y1; cx = x1 + w div 2; cy = y1 + h div 2
        in Face tid (of_int cx / of_int TARGET_W) (of_int cy / of_int TARGET_H)
                    (of_int w / of_int TARGET_W) (of_int h / of_int TARGET_H)
                    (emotion_to_index emo))"

text \<open>
  The loop over the resolved tracks of a frame (lines 187 to 203). The external parts are
  parameters: \<open>analyze\<close> is \<open>DeepFace.analyze\<close> on the crop of a track (\<open>None\<close> when it
  raises), \<open>sink\<close> tells whether a \<open>send_message\<close> call returns (\<open>False\<close> when it raises).
  Inside the \<open>try\<close> every exception is caught: the track is skipped from the point where
  it was raised, so \<open>has_face\<close> stays as it was. The last component lists the
  \<open>send_message\<close> calls made.
\<close>

fun face_loop :: "(osc_msg \<Rightarrow> bool) \<Rightarrow> (nat \<times> bbox \<Rightarrow> string option) \<Rightarrow> (nat \<times> bbox) list \<Rightarrow>
    category list \<times> bool \<times> osc_msg list \<Rightarrow> category list \<times> bool \<times> osc_msg list" where
  "face_loop sink analyze [] acc = acc"
| "face_loop sink analyze ((tid, bb) # ts) (cats, has_face, calls) =
     (case analyze (tid, bb) of
        None \<Rightarrow> face_loop sink analyze ts (cats, has_face, calls)
      | Some emo \<Rightarrow>
          let cats' = (case emotion_to_category emo of None \<Rightarrow> cats | Some cat \<Rightarrow> cats @ [cat]);
              m = face_msg tid bb emo
          in if sink m then face_loop sink analyze ts (cats', True, calls @ [m])
             else face_loop sink analyze ts (cats', has_face, calls @ [m]))"

text \<open>
  Lines 185 to 204: the loop, then \<open>if not has_face: send_message("/no_face", [])\<close>. That
  call is outside every \<open>try\<close>: when it raises, the exception leaves the main loop
  (\<open>Inl\<close>, with the calls made).
\<close>

definition emit_faces :: "(osc_msg \<Rightarrow> bool) \<Rightarrow> (nat \<times> bbox \<Rightarrow> string option) \<Rightarrow> (nat \<times> bbox) list \<Rightarrow>
    (py_exception \<times> osc_msg list) + (category list \<times> osc_msg list)" where
  "emit_faces sink analyze tracks =
     (case face_loop sink analyze tracks ([], False, []) of
        (cats, has_face, calls) \<Rightarrow>
          if \<not> has_face then
            (if sink NoFace then Inr (cats, calls @ [NoFace]) else Inl (OSError, calls @ [NoFace]))
          else Inr (cats, calls))"

text \<open>
  Lines 210 to 216. \<open>vals.items()\<close> lists the categories in the order the dict literal
  names them. \<open>random.choice(seq)\<close> returns \<open>seq[k]\<close> for a drawn index \<open>k < len(seq)\<close>;
  the draw is the parameter \<open>r\<close>, reduced below the length. \<open>max_categories[0]\<close> raises
  IndexError on an empty list.
\<close>

definition vals_of :: "(category \<Rightarrow> nat) \<Rightarrow> (category \<times> nat) list" where
  "vals_of cnt = [(Active, cnt Active), (Calm, cnt Calm), (Hesitant, cnt Hesitant), (Anxious, cnt Anxious)]"

definition max_categories :: "(category \<times> nat) list \<Rightarrow> category list" where
  "max_categories vals =
     (let max_value = Max (set (map snd vals))
      in map fst (filter (\<lambda>(cat, count). count = max_value) vals))"

definition random_choice :: "nat \<Rightarrow> 'a list \<Rightarrow> 'a" where
  "random_choice r xs = xs ! (r mod length xs)"

definition total_cat :: "nat \<Rightarrow> (category \<times> nat) list \<Rightarrow> py_exception + category" where
  "total_cat r vals =
     (let mcs = max_categories vals
      in if length mcs > 1 then Inr (random_choice r mcs)
         else (case mcs of [] \<Rightarrow> Inl IndexError | c # _ \<Rightarrow> Inr c))"

text \<open>
  Lines 210 to 223, run when a window completes. The two \<open>send_message\<close> calls are
  outside every \<open>try\<close>; an exception of theirs leaves the main loop before line 223 is
  reached (\<open>Inl\<close>: the exception, the calls made, the state at that moment).
\<close>

definition emit_summary :: "(osc_msg \<Rightarrow> bool) \<Rightarrow> ai_reply \<Rightarrow> nat \<Rightarrow> agg_state \<Rightarrow> osc_msg list \<Rightarrow>
    (py_exception \<times> osc_msg list \<times> agg_state) + (osc_msg list \<times> agg_state)" where
  "emit_summary sink reply r st calls =
     (case total_cat r (vals_of (counts st)) of
        Inl e \<Rightarrow> Inl (e, calls, st)
      | Inr tc \<Rightarrow>
          let m1 = AgentEmotion tc (category_to_index tc) (counts st Active) (counts st Calm)
                     (counts st Hesitant) (counts st Anxious)
          in if \<not> sink m1 then Inl (OSError, calls @ [m1], st)
             else
               let word = send_ai_query reply; m2 = AgentWord word
               in if \<not> sink m2 then Inl (OSError, calls @ [m1, m2], st)
                  else Inr (calls @ [m1, m2], st\<lparr>counts := zero_counts, sample_count := 0\<rparr>))"

text \<open>Lines 205 to 223: the sampling tick.\<close>

definition bump :: "category \<Rightarrow> (category \<Rightarrow> nat) \<Rightarrow> (category \<Rightarrow> nat)" where
  "bump c cnt = cnt(c := cnt c + 1)"

definition window_completes :: "real \<Rightarrow> agg_state \<Rightarrow> bool" where
  "window_completes now st =
     (now - last_sample st \<ge> SAMPLE_INTERVAL \<and> sample_count st + 1 \<ge> SAMPLES_PER_SUMMARY)"

definition sample_tick :: "(osc_msg \<Rightarrow> bool) \<Rightarrow> ai_reply \<Rightarrow> nat \<Rightarrow> real \<Rightarrow> category list \<Rightarrow> agg_state \<Rightarrow>
    osc_msg list \<Rightarrow> (py_exception \<times> osc_msg list \<times> agg_state) + (osc_msg list \<times> agg_state)" where
  "sample_tick sink reply r now cats st calls =
     (if now - last_sample st \<ge> SAMPLE_INTERVAL then
        let st1 = st\<lparr>counts := fold bump cats (counts st),
                     sample_count := sample_count st + 1, last_sample := now\<rparr>
        in if sample_count st1 \<ge> SAMPLES_PER_SUMMARY then emit_summary sink reply r st1 calls
           else Inr (calls, st1)
      else Inr (calls, st))"

text \<open>Lines 185 to 223 for the resolved tracks of one frame.\<close>

definition loop_body :: "(osc_msg \<Rightarrow> bool) \<Rightarrow> (nat \<times> bbox \<Rightarrow> string option) \<Rightarrow> ai_reply \<Rightarrow> nat \<Rightarrow> real \<Rightarrow>
    (nat \<times> bbox) list \<Rightarrow> agg_state \<Rightarrow>
    (py_exception \<times> osc_msg list \<times> agg_state) + (osc_msg list \<times> agg_state)" where
  "loop_body sink analyze reply r now tracks st =
     (case emit_faces sink analyze tracks of
        Inl (e, calls) \<Rightarrow> Inl (e, calls, st)
      | Inr (cats, calls) \<Rightarrow> sample_tick sink reply r now cats st calls)"

text \<open>The \<open>send_message\<close> calls a run of the loop body made, whether it ended or raised.\<close>

definition faces_calls :: "(py_exception \<times> osc_msg list) + (category list \<times> osc_msg list) \<Rightarrow> osc_msg list" where
  "faces_calls res = (case res of Inl (e, calls) \<Rightarrow> calls | Inr (cats, calls) \<Rightarrow> calls)"

definition summary_calls :: "(py_exception \<times> osc_msg list \<times> agg_state) + (osc_msg list \<times> agg_state) \<Rightarrow> osc_msg list" where
  "summary_calls res = (case res of Inl (e, calls, st) \<Rightarrow> calls | Inr (calls, st) \<Rightarrow> calls)"

text \<open>A track is reported when its analysis returns and its \<open>/face\<close> message is sent.\<close>

definition reported :: "(osc_msg \<Rightarrow> bool) \<Rightarrow> (nat \<times> bbox \<Rightarrow> string option) \<Rightarrow> nat \<times> bbox \<Rightarrow> bool" where
  "reported sink analyze t =
     (case analyze t of None \<Rightarrow> False | Some emo \<Rightarrow> sink (face_msg (fst t) (snd t) emo))"

definition is_summary :: "osc_msg \<Rightarrow> bool" where
  "is_summary m = (case m of AgentEmotion c i a b h x \<Rightarrow> True | _ \<Rightarrow> False)"

text \<open>Concrete collaborators and states for the examples.\<close>

definition sink_returns :: "osc_msg \<Rightarrow> bool" where "sink_returns m = True"
definition sink_raises :: "osc_msg \<Rightarrow> bool" where "sink_raises m = False"
definition analyze_raises :: "nat \<times> bbox \<Rightarrow> string option" where "analyze_raises t = None"
definition analyze_happy :: "nat \<times> bbox \<Rightarrow> string option" where "analyze_happy t = Some ''happy''"

definition example_counts :: "category \<Rightarrow> nat" where
  "example_counts c = (case c of Active \<Rightarrow> 5 | Calm \<Rightarrow> 5 | Hesitant \<Rightarrow> 1 | Anxious \<Rightarrow> 1)"

definition window_start :: agg_state where
  "window_start = \<lparr>last_sample = 0, sample_count = 11, counts = zero_counts\<rparr>"

section \<open>Python floats\<close>

text \<open>
  A Python float is an IEEE 754 binary64 number; it is modelled as the real number it
  denotes. An arithmetic operation returns the exact result rounded to the nearest
  double, ties to the even significand, and so do a decimal literal and the conversion of
  an int. Comparisons and \<open>abs\<close> are exact. Infinities and NaN are left out: the
  operations below, on pixel coordinates, frame sizes and clock readings, stay far from
  the largest double.
\<close>

definition round_half_even :: "real \<Rightarrow> int" where
  "round_half_even y =
     (let f = \<lfloor>y\<rfloor>; d = y - of_int f
      in if d < 1 / 2 then f else if d > 1 / 2 then f + 1 else if even f then f else f + 1)"

text \<open>For \<open>x\<close> other than 0, the exponent \<open>e\<close> with \<open>2^e \<le> |x| < 2^(e+1)\<close>.\<close>

definition binary_exponent :: "real \<Rightarrow> int" where
  "binary_exponent x = (if \<bar>x\<bar> \<ge> 1 then bitlen \<lfloor>\<bar>x\<bar>\<rfloor> - 1 else - bitlen (\<lceil>1 / \<bar>x\<bar>\<rceil> - 1))"

text \<open>
  The nearest double: 53 significant bits, so the spacing is \<open>2^(e-52)\<close>; below
  \<open>2^(-1022)\<close> the spacing stays that of the subnormal numbers.
\<close>

definition round_double :: "real \<Rightarrow> real" where
  "round_double x =
     (if x = 0 then 0
      else let e = max (binary_exponent x) (- 1022); ulp = 2 powi (e - 52)
           in of_int (round_half_even (x / ulp)) * ulp)"

text \<open>
  \<open>float(i)\<close> as done implicitly when an int meets a float, \<open>a / b\<close> on two ints (true
  division, correctly rounded), and \<open>+\<close>, \<open>-\<close>, \<open>/\<close> on floats.
\<close>

definition float_of_int :: "int \<Rightarrow> real" where
  "float_of_int i = round_double (of_int i)"

definition int_truediv :: "int \<Rightarrow> int \<Rightarrow> real" where
  "int_truediv a b = round_double (of_int a / of_int b)"

definition float_add :: "real \<Rightarrow> real \<Rightarrow> real" where
  "float_add a b = round_double (a + b)"

definition float_sub :: "real \<Rightarrow> real \<Rightarrow> real" where
  "float_sub a b = round_double (a - b)"

definition float_div :: "real \<Rightarrow> real \<Rightarrow> real" where
  "float_div a b = round_double (a / b)"

section \<open>SideScreen: the report gate of \<open>GAFDetectionSystem\<close> (\<open>main.py\<close>)\<close>

text \<open>
  A tracked object is the 7-tuple \<open>(x1, y1, x2, y2, track_id, class_id, conf)\<close> the tracker
  returns; the coordinates are ints (\<open>detection.py\<close>, line 84), \<open>conf\<close> is a float. A sent
  state is \<open>(class_id, norm_x, norm_y, norm_w, norm_h)\<close>, which is also the argument list
  of the message sent to \<open>OSC_ADDRESS\<close>; its last four components are floats.
\<close>

type_synonym tracked_object = "int \<times> int \<times> int \<times> int \<times> nat \<times> int \<times> real"
type_synonym letter_state = "int \<times> real \<times> real \<times> real \<times> real"

text \<open>The constants of \<open>modules/config.py\<close> the gate reads; the numbers are float literals.\<close>

record gate_config =
  STABLE_CONF_THRESHOLD :: real
  STABLE_TIME_THRESHOLD :: real
  RESEND_COOLDOWN :: real
  SEND_ONLY_STABLE :: bool
  SEND_ONLY_CHANGES :: bool

definition config :: gate_config where
  "config = \<lparr>STABLE_CONF_THRESHOLD = round_double (35 / 100), STABLE_TIME_THRESHOLD = round_double (1 / 2),
             RESEND_COOLDOWN = round_double 5, SEND_ONLY_STABLE = True, SEND_ONLY_CHANGES = True\<rparr>"

record gate_state =
  first_detection_time :: "nat \<rightharpoonup> real"
  last_sent_time :: "nat \<rightharpoonup> real"
  last_sent_state :: "nat \<rightharpoonup> letter_state"

definition track_id_of :: "tracked_object \<Rightarrow> nat" where
  "track_id_of obj = (case obj of (x1, y1, x2, y2, track_id, class_id, conf) \<Rightarrow> track_id)"

text \<open>
  Lines 186 to 198; the frame size, an int, is not zero here. \<open>w / 2\<close> and
  \<open>w / self.frame_width\<close> divide two ints, \<open>x1 + w / 2\<close> adds an int to a float and
  \<open>cx / self.frame_width\<close> divides a float by an int.
\<close>

definition current_state :: "int \<Rightarrow> int \<Rightarrow> tracked_object \<Rightarrow> letter_state" where
  "current_state frame_width frame_height obj =
     (case obj of (x1, y1, x2, y2, track_id, class_id, conf) \<Rightarrow>
        let w = x2 - x1; h = y2 - y1;
            cx = float_add (float_of_int x1) (int_truediv w 2);
            cy = float_add (float_of_int y1) (int_truediv h 2);
            norm_x = float_div cx (float_of_int frame_width);
            norm_y = float_sub 1 (float_div cy (float_of_int frame_height));
            norm_w = int_truediv w frame_width;
            norm_h = int_truediv h frame_height
        in (class_id, norm_x, norm_y, norm_w, norm_h))"

text \<open>Lines 201 to 206: the first detection time is recorded, then stability is judged.\<close>

definition record_first_detection :: "real \<Rightarrow> gate_state \<Rightarrow> nat \<Rightarrow> gate_state" where
  "record_first_detection current_time st track_id =
     (case first_detection_time st track_id of
        None \<Rightarrow> st\<lparr>first_detection_time := (first_detection_time st)(track_id \<mapsto> current_time)\<rparr>
      | Some t \<Rightarrow> st)"

definition is_stable :: "gate_config \<Rightarrow> real \<Rightarrow> gate_state \<Rightarrow> tracked_object \<Rightarrow> bool" where
  "is_stable cfg current_time st obj =
     (case obj of (x1, y1, x2, y2, track_id, class_id, conf) \<Rightarrow>
        let first = (case first_detection_time st track_id of None \<Rightarrow> current_time | Some t \<Rightarrow> t);
            detection_duration = float_sub current_time first
        in detection_duration \<ge> STABLE_TIME_THRESHOLD cfg \<and> conf \<ge> STABLE_CONF_THRESHOLD cfg)"

text \<open>Lines 216 to 234; \<open>0.01\<close> is the double nearest to one hundredth.\<close>

definition is_first_detection :: "gate_state \<Rightarrow> nat \<Rightarrow> bool" where
  "is_first_detection st track_id = (last_sent_time st track_id = None)"

definition cooldown_passed :: "gate_config \<Rightarrow> real \<Rightarrow> gate_state \<Rightarrow> nat \<Rightarrow> bool" where
  "cooldown_passed cfg current_time st track_id =
     (case last_sent_time st track_id of
        None \<Rightarrow> True
      | Some t \<Rightarrow> float_sub current_time t \<ge> RESEND_COOLDOWN cfg)"

definition differs :: "letter_state \<Rightarrow> letter_state \<Rightarrow> bool" where
  "differs last_state cur =
     (case last_state of (c0, x0, y0, w0, h0) \<Rightarrow> case cur of (c1, x1, y1, w1, h1) \<Rightarrow>
        c0 \<noteq> c1 \<or> \<bar>float_sub x0 x1\<bar> > round_double (1 / 100) \<or>
        \<bar>float_sub y0 y1\<bar> > round_double (1 / 100) \<or>
        \<bar>float_sub w0 w1\<bar> > round_double (1 / 100) \<or>
        \<bar>float_sub h0 h1\<bar> > round_double (1 / 100))"

definition state_changed :: "gate_state \<Rightarrow> nat \<Rightarrow> letter_state \<Rightarrow> bool" where
  "state_changed st track_id cur =
     (case last_sent_state st track_id of None \<Rightarrow> True | Some last_state \<Rightarrow> differs last_state cur)"

text \<open>
  The body of the loop of \<open>send_letter_detection_results\<close> (lines 180 to 244) for one
  tracked object, at the clock reading \<open>current_time\<close> taken once per call. \<open>sink\<close> tells
  whether \<open>send_message\<close> returns; its exception is not caught here and ends the call. The
  divisions raise ZeroDivisionError on a zero frame size. The result lists the messages
  sent for this object.
\<close>

definition letter_gate :: "gate_config \<Rightarrow> int \<Rightarrow> int \<Rightarrow> (letter_state \<Rightarrow> bool) \<Rightarrow> real \<Rightarrow> gate_state \<Rightarrow>
    tracked_object \<Rightarrow> py_exception + (letter_state list \<times> gate_state)" where
  "letter_gate cfg frame_width frame_height sink current_time st obj =
     (if frame_width = 0 \<or> frame_height = 0 then Inl ZeroDivisionError
      else
        let track_id = track_id_of obj;
            cur = current_state frame_width frame_height obj;
            st1 = record_first_detection current_time st track_id
        in if SEND_ONLY_STABLE cfg \<and> \<not> is_stable cfg current_time st obj then Inr ([], st1)
           else if is_first_detection st1 track_id \<or>
                   (cooldown_passed cfg current_time st1 track_id \<and>
                    (\<not> SEND_ONLY_CHANGES cfg \<or> state_changed st1 track_id cur))
           then (if sink cur
                 then Inr ([cur], st1\<lparr>last_sent_time := (last_sent_time st1)(track_id \<mapsto> current_time),
                                       last_sent_state := (last_sent_state st1)(track_id \<mapsto> cur)\<rparr>)
                 else Inl OSError)
           else Inr ([], st1))"

text \<open>The loop over the tracked objects of the frame: the messages sent, in order.\<close>

fun send_letter_detection_results :: "gate_config \<Rightarrow> int \<Rightarrow> int \<Rightarrow> (letter_state \<Rightarrow> bool) \<Rightarrow> real \<Rightarrow>
    gate_state \<Rightarrow> tracked_object list \<Rightarrow> py_exception + (letter_state list \<times> gate_state)" where
  "send_letter_detection_results cfg fw fh sink current_time st [] = Inr ([], st)"
| "send_letter_detection_results cfg fw fh sink current_time st (obj # objs) =
     (case letter_gate cfg fw fh sink current_time st obj of
        Inl e \<Rightarrow> Inl e
      | Inr (sent, st1) \<Rightarrow>
          (case send_letter_detection_results cfg fw fh sink current_time st1 objs of
             Inl e \<Rightarrow> Inl e
           | Inr (sent', st2) \<Rightarrow> Inr (sent @ sent', st2)))"

text \<open>
  The emit rule in the words of the specification, on the stored dispatch state. The time
  since the last send and the difference of two components are the ones the gate
  computes, in double arithmetic, and \<open>0.01\<close> is the double of that literal.
\<close>

definition spec_is_first :: "gate_state \<Rightarrow> nat \<Rightarrow> bool" where
  "spec_is_first st tid = (tid \<notin> dom (last_sent_time st))"

definition spec_cooldown_passed :: "real \<Rightarrow> real \<Rightarrow> gate_state \<Rightarrow> nat \<Rightarrow> bool" where
  "spec_cooldown_passed resend_cooldown now st tid =
     (case last_sent_time st tid of
        None \<Rightarrow> True
      | Some last_sent_at \<Rightarrow> float_sub now last_sent_at \<ge> resend_cooldown)"

definition spec_state_changed :: "gate_state \<Rightarrow> nat \<Rightarrow> letter_state \<Rightarrow> bool" where
  "spec_state_changed st tid cur =
     (case last_sent_state st tid of
        None \<Rightarrow> True
      | Some (c0, x0, y0, w0, h0) \<Rightarrow>
          c0 \<noteq> fst cur \<or>
          \<bar>float_sub x0 (fst (snd cur))\<bar> > round_double (1 / 100) \<or>
          \<bar>float_sub y0 (fst (snd (snd cur)))\<bar> > round_double (1 / 100) \<or>
          \<bar>float_sub w0 (fst (snd (snd (snd cur))))\<bar> > round_double (1 / 100) \<or>
          \<bar>float_sub h0 (snd (snd (snd (snd cur))))\<bar> > round_double (1 / 100))"

definition spec_emit :: "bool \<Rightarrow> real \<Rightarrow> real \<Rightarrow> gate_state \<Rightarrow> nat \<Rightarrow> letter_state \<Rightarrow> bool" where
  "spec_emit send_only_changes resend_cooldown now st tid cur =
     (spec_is_first st tid \<or>
      (spec_cooldown_passed resend_cooldown now st tid \<and>
       (\<not> send_only_changes \<or> spec_state_changed st tid cur)))"

text \<open>Line 212: the object is not skipped as unstable.\<close>

definition passes_stability_filter :: "gate_config \<Rightarrow> real \<Rightarrow> gate_state \<Rightarrow> tracked_object \<Rightarrow> bool" where
  "passes_stability_filter cfg now st obj = (\<not> (SEND_ONLY_STABLE cfg \<and> \<not> is_stable cfg now st obj))"

text \<open>An object for which a report is due: it passes the filter and the rule holds.\<close>

definition emits :: "gate_config \<Rightarrow> int \<Rightarrow> int \<Rightarrow> real \<Rightarrow> gate_state \<Rightarrow> tracked_object \<Rightarrow> bool" where
  "emits cfg fw fh now st obj =
     (passes_stability_filter cfg now st obj \<and>
      spec_emit (SEND_ONLY_CHANGES cfg) (RESEND_COOLDOWN cfg) now st (track_id_of obj) (current_state fw fh obj))"

text \<open>
  The state change of the claim as first stated, read in exact arithmetic: the normalized
  position and size as exact quotients, and a change when the class differs or a
  component differs by more than one hundredth.
\<close>

definition exact_state :: "int \<Rightarrow> int \<Rightarrow> tracked_object \<Rightarrow> letter_state" where
  "exact_state frame_width frame_height obj =
     (case obj of (x1, y1, x2, y2, track_id, class_id, conf) \<Rightarrow>
        let w = x2 - x1; h = y2 - y1;
            cx = of_int x1 + of_int w / 2; cy = of_int y1 + of_int h / 2
        in (class_id, cx / of_int frame_width, 1 - cy / of_int frame_height,
            of_int w / of_int frame_width, of_int h / of_int frame_height))"

definition exact_change :: "letter_state \<Rightarrow> letter_state \<Rightarrow> bool" where
  "exact_change last_state cur =
     (case last_state of (c0, x0, y0, w0, h0) \<Rightarrow> case cur of (c1, x1, y1, w1, h1) \<Rightarrow>
        c0 \<noteq> c1 \<or> \<bar>x0 - x1\<bar> > 1 / 100 \<or> \<bar>y0 - y1\<bar> > 1 / 100 \<or>
        \<bar>w0 - w1\<bar> > 1 / 100 \<or> \<bar>h0 - h1\<bar> > 1 / 100)"

text \<open>
  For the examples: a sink that returns, a dispatch state in which track 1 was first seen
  a second ago, and, on a frame of 800 by 600, a letter 240 pixels wide, the same letter
  248 pixels wide around the same centre, a letter of a track not seen before, and the
  dispatch state after the first letter was sent at time 0.
\<close>

definition letter_sink :: "letter_state \<Rightarrow> bool" where "letter_sink m = True"

definition gate_example :: gate_state where
  "gate_example = \<lparr>first_detection_time = [1 \<mapsto> - 1], last_sent_time = Map.empty,
                    last_sent_state = Map.empty\<rparr>"

definition letter_240 :: tracked_object where
  "letter_240 = (280, 150, 520, 450, 1, 0, 3 / 4)"

definition letter_248 :: tracked_object where
  "letter_248 = (276, 150, 524, 450, 1, 0, 3 / 4)"

definition letter_new :: tracked_object where
  "letter_new = (0, 0, 400, 300, 2, 1, 3 / 4)"

definition gate_example_sent :: gate_state where
  "gate_example_sent = \<lparr>first_detection_time = [1 \<mapsto> - 1], last_sent_time = [1 \<mapsto> 0],
                         last_sent_state = [1 \<mapsto> (0, 1 / 2, 1 / 2, round_double (3 / 10), 1 / 2)]\<rparr>"

section \<open>SideScreen: the annotation boxes of \<open>AnythingWorker\<close> (\<open>vision_api/worker.py\<close>)\<close>

text \<open>An element of \<open>self.boxes\<close>: \<open>(box, text, timestamp)\<close>.\<close>

type_synonym annotation = "bbox \<times> string \<times> real"

definition timestamp :: "annotation \<Rightarrow> real" where
  "timestamp a = snd (snd a)"

definition VISION_API_BOX_DURATION :: real where "VISION_API_BOX_DURATION = 5"
definition VISION_API_MAX_ONSCREEN :: nat where "VISION_API_MAX_ONSCREEN = 6"

definition unexpired :: "real \<Rightarrow> real \<Rightarrow> annotation \<Rightarrow> bool" where
  "unexpired duration now a = (now - timestamp a \<le> duration)"

text \<open>
  \<open>min(boxes, key=lambda x: x[2])\<close> on a list with first element \<open>a\<close>: the first entry
  of least timestamp (a later entry replaces the candidate only when strictly older).
\<close>

fun oldest_from :: "annotation \<Rightarrow> annotation list \<Rightarrow> annotation" where
  "oldest_from a [] = a"
| "oldest_from a (b # bs) = (if timestamp b < timestamp a then oldest_from b bs else oldest_from a bs)"

lemma oldest_from_mem: "oldest_from a bs \<in> set (a # bs)"
  by (induction a bs rule: oldest_from.induct) auto

lemma length_remove_oldest: "length (remove1 (oldest_from a bs) (a # bs)) < Suc (length bs)"
  using oldest_from_mem[of a bs] by (simp add: length_remove1 del: remove1.simps)

text \<open>
  \<open>get_current_boxes\<close>, line 68: \<open>while len(self.boxes) > MAX: remove the oldest\<close>.
  The list is not empty when the test holds.
\<close>

function evict_over :: "nat \<Rightarrow> annotation list \<Rightarrow> annotation list" where
  "evict_over mx [] = []"
| "evict_over mx (a # bs) =
     (if length (a # bs) > mx then evict_over mx (remove1 (oldest_from a bs) (a # bs)) else a # bs)"
  by pat_completeness auto
termination
  by (relation "measure (\<lambda>(mx, bs). length bs)") (auto simp: length_remove_oldest simp del: remove1.simps)

text \<open>
  \<open>api_call_thread\<close>, line 241: \<open>while len(self.boxes) >= MAX: remove the oldest\<close>.
  When the list is empty and the test still holds (\<open>MAX = 0\<close>), \<open>min\<close> raises ValueError.
\<close>

function evict_full :: "nat \<Rightarrow> annotation list \<Rightarrow> py_exception + annotation list" where
  "evict_full mx [] = (if 0 \<ge> mx then Inl ValueError else Inr [])"
| "evict_full mx (a # bs) =
     (if length (a # bs) \<ge> mx then evict_full mx (remove1 (oldest_from a bs) (a # bs)) else Inr (a # bs))"
  by pat_completeness auto
termination
  by (relation "measure (\<lambda>(mx, bs). length bs)") (auto simp: length_remove_oldest simp del: remove1.simps)

text \<open>
  \<open>get_current_boxes\<close> (lines 56 to 73) under the lock, at clock reading \<open>now\<close>: the new
  value of \<open>self.boxes\<close>, which is also what the call returns (as a copy).
\<close>

definition get_current_boxes :: "real \<Rightarrow> nat \<Rightarrow> real \<Rightarrow> annotation list \<Rightarrow> annotation list" where
  "get_current_boxes duration mx now boxes = evict_over mx (filter (unexpired duration now) boxes)"

text \<open>
  The critical section of \<open>api_call_thread\<close> (lines 234 to 248) at clock reading
  \<open>current_time\<close>: the new value of \<open>self.boxes\<close>, and the exception caught by the
  enclosing \<open>except Exception\<close>, if any. When ValueError is raised the loop has emptied
  the list and nothing is appended.
\<close>

definition add_box :: "real \<Rightarrow> nat \<Rightarrow> real \<Rightarrow> bbox \<Rightarrow> string \<Rightarrow> annotation list \<Rightarrow>
    annotation list \<times> py_exception option" where
  "add_box duration mx current_time box_coords response_text boxes =
     (case evict_full mx (filter (unexpired duration current_time) boxes) of
        Inl e \<Rightarrow> ([], Some e)
      | Inr bs \<Rightarrow> (bs @ [(box_coords, response_text, current_time)], None))"


definition six_boxes :: "annotation list" where
  "six_boxes = [((0, 0, 1, 1), ''a'', 3), ((1, 1, 2, 2), ''b'', 1), ((2, 2, 3, 3), ''c'', 2),
                ((3, 3, 4, 4), ''d'', 4), ((4, 4, 5, 5), ''e'', 5), ((5, 5, 6, 6), ''f'', 6)]"

section \<open>SideScreen: \<open>IoUTracker\<close> of \<open>modules/models/tracker.py\<close>\<close>

text \<open>
  \<open>self.tracks\<close> is a dict from track id to a dict with the four keys below. A dict
  keeps its keys distinct and in insertion order, and the matching depends on that order,
  so it is an association list: \<open>map_of\<close> reads a key, \<open>AList.update\<close> is the
  assignment \<open>d[k] = v\<close> (in place for a present key, appended for a new one),
  \<open>AList.delete\<close> is \<open>del d[k]\<close>.
\<close>

record track =
  bbox :: bbox
  missed_count :: nat
  class_id :: int
  conf :: real

record history_entry =
  h_bbox :: bbox
  h_time :: real
  h_class_id :: int
  h_conf :: real

record tracker =
  iou_threshold :: real
  max_missed_frames :: nat
  next_id :: nat
  tracks :: "(nat \<times> track) list"
  track_history :: "nat \<rightharpoonup> history_entry list"

definition IoUTracker :: "real \<Rightarrow> nat \<Rightarrow> tracker" where
  "IoUTracker thr mx =
     \<lparr>iou_threshold = thr, max_missed_frames = mx, next_id = 1, tracks = [], track_history = Map.empty\<rparr>"

definition calculate_iou :: "bbox \<Rightarrow> bbox \<Rightarrow> real" where
  "calculate_iou box1 box2 =
     (case box1 of (x1_1, y1_1, x2_1, y2_1) \<Rightarrow> case box2 of (x1_2, y1_2, x2_2, y2_2) \<Rightarrow>
        let x1_i = max x1_1 x1_2; y1_i = max y1_1 y1_2;
            x2_i = min x2_1 x2_2; y2_i = min y2_1 y2_2
        in if x2_i < x1_i \<or> y2_i < y1_i then 0
           else
             let intersection = (x2_i - x1_i) * (y2_i - y1_i);
                 box1_area = (x2_1 - x1_1) * (y2_1 - y1_1);
                 box2_area = (x2_2 - x1_2) * (y2_2 - y1_2);
                 union = box1_area + box2_area - intersection
             in if union > 0 then of_int intersection / of_int union else 0)"

text \<open>
  Lines 39 to 45 and 127 to 131: an unmatched track misses one more frame and is deleted
  once it has missed more than \<open>max_missed_frames\<close>. The key is present whenever this
  runs (the ids come from the dict and each is visited once).
\<close>

definition age_track :: "nat \<Rightarrow> nat \<Rightarrow> (nat \<times> track) list \<Rightarrow> (nat \<times> track) list" where
  "age_track mx track_id trks =
     (case map_of trks track_id of
        None \<Rightarrow> trks
      | Some t \<Rightarrow>
          if missed_count t + 1 > mx then AList.delete track_id trks
          else AList.update track_id (t\<lparr>missed_count := missed_count t + 1\<rparr>) trks)"

text \<open>
  Lines 64 to 73: the search, for one detection, through its row of the IoU matrix;
  \<open>t_idx\<close> counts the columns, \<open>None\<close> stands for \<open>max_track_idx = -1\<close>.
\<close>

fun best_track :: "nat list \<Rightarrow> real list \<Rightarrow> nat \<Rightarrow> real \<Rightarrow> nat option \<Rightarrow> nat option" where
  "best_track tracked_tracks [] t_idx max_iou max_track_idx = max_track_idx"
| "best_track tracked_tracks (v # row) t_idx max_iou max_track_idx =
     (if t_idx \<in> set tracked_tracks then best_track tracked_tracks row (Suc t_idx) max_iou max_track_idx
      else if v > max_iou then best_track tracked_tracks row (Suc t_idx) v (Some t_idx)
      else best_track tracked_tracks row (Suc t_idx) max_iou max_track_idx)"

text \<open>The state the three loops of \<open>update\<close> work on.\<close>

record update_state =
  u_tracks :: "(nat \<times> track) list"
  u_history :: "nat \<rightharpoonup> history_entry list"
  u_next_id :: nat
  u_result :: "tracked_object list"
  tracked_dets :: "nat list"
  tracked_tracks :: "nat list"

definition tracked :: "bbox \<Rightarrow> nat \<Rightarrow> int \<Rightarrow> real \<Rightarrow> tracked_object" where
  "tracked det track_id cls cf = (case det of (x1, y1, x2, y2) \<Rightarrow> (x1, y1, x2, y2, track_id, cls, cf))"

definition limit_history :: "history_entry list \<Rightarrow> history_entry list" where
  "limit_history h = (if length h > 100 then drop (length h - 100) h else h)"

text \<open>
  Lines 62 to 101, for the detection of index \<open>d_idx\<close>: \<open>row\<close> is its row of the matrix,
  computed before the loop from the boxes the tracks had then.
\<close>

definition match_detection :: "real \<Rightarrow> real \<Rightarrow> nat list \<Rightarrow> nat \<Rightarrow> bbox \<times> int \<times> real \<Rightarrow> real list \<Rightarrow>
    update_state \<Rightarrow> update_state" where
  "match_detection thr now track_ids d_idx d row u =
     (case d of (det, cls, cf) \<Rightarrow>
        (case best_track (tracked_tracks u) row 0 thr None of
           None \<Rightarrow> u
         | Some max_track_idx \<Rightarrow>
             let track_id = track_ids ! max_track_idx;
                 old = (case u_history u track_id of None \<Rightarrow> [] | Some h \<Rightarrow> h);
                 entry = \<lparr>h_bbox = det, h_time = now, h_class_id = cls, h_conf = cf\<rparr>
             in u\<lparr>u_tracks := AList.update track_id
                                 \<lparr>bbox = det, missed_count = 0, class_id = cls, conf = cf\<rparr> (u_tracks u),
                   u_history := (u_history u)(track_id \<mapsto> limit_history (old @ [entry])),
                   u_result := u_result u @ [tracked det track_id cls cf],
                   tracked_dets := tracked_dets u @ [d_idx],
                   tracked_tracks := tracked_tracks u @ [max_track_idx]\<rparr>))"

fun match_loop :: "real \<Rightarrow> real \<Rightarrow> nat list \<Rightarrow> (nat \<times> (bbox \<times> int \<times> real) \<times> real list) list \<Rightarrow>
    update_state \<Rightarrow> update_state" where
  "match_loop thr now track_ids [] u = u"
| "match_loop thr now track_ids ((d_idx, d, row) # rest) u =
     match_loop thr now track_ids rest (match_detection thr now track_ids d_idx d row u)"

text \<open>Lines 104 to 124: a new track for every detection left unmatched.\<close>

definition new_track :: "real \<Rightarrow> nat \<Rightarrow> bbox \<times> int \<times> real \<Rightarrow> update_state \<Rightarrow> update_state" where
  "new_track now d_idx d u =
     (case d of (det, cls, cf) \<Rightarrow>
        if d_idx \<in> set (tracked_dets u) then u
        else
          let track_id = u_next_id u
          in u\<lparr>u_next_id := u_next_id u + 1,
                u_tracks := AList.update track_id
                              \<lparr>bbox = det, missed_count = 0, class_id = cls, conf = cf\<rparr> (u_tracks u),
                u_history := (u_history u)(track_id \<mapsto>
                                [\<lparr>h_bbox = det, h_time = now, h_class_id = cls, h_conf = cf\<rparr>]),
                u_result := u_result u @ [tracked det track_id cls cf]\<rparr>)"

fun new_loop :: "real \<Rightarrow> (nat \<times> (bbox \<times> int \<times> real)) list \<Rightarrow> update_state \<Rightarrow> update_state" where
  "new_loop now [] u = u"
| "new_loop now ((d_idx, d) # rest) u = new_loop now rest (new_track now d_idx d u)"

text \<open>Lines 127 to 131: the tracks of the start of the call that were not matched.\<close>

fun age_loop :: "nat \<Rightarrow> nat list \<Rightarrow> (nat \<times> nat) list \<Rightarrow> (nat \<times> track) list \<Rightarrow> (nat \<times> track) list" where
  "age_loop mx matched [] trks = trks"
| "age_loop mx matched ((t_idx, track_id) # rest) trks =
     (if t_idx \<in> set matched then age_loop mx matched rest trks
      else age_loop mx matched rest (age_track mx track_id trks))"

text \<open>
  \<open>update(detections, class_ids, confs)\<close> at clock reading \<open>now\<close> (the readings of
  \<open>time.time()\<close> within one call are taken as one). Every detection index is used to read
  \<open>class_ids\<close> and \<open>confs\<close>, so a shorter list raises IndexError. The result is the list
  returned and the tracker after the call.
\<close>

definition update :: "real \<Rightarrow> tracker \<Rightarrow> bbox list \<Rightarrow> int list \<Rightarrow> real list \<Rightarrow>
    py_exception + (tracked_object list \<times> tracker)" where
  "update now s detections class_ids confs =
     (if length detections = 0 then
        Inr ([], s\<lparr>tracks := fold (age_track (max_missed_frames s)) (map fst (tracks s)) (tracks s)\<rparr>)
      else if length class_ids < length detections \<or> length confs < length detections then Inl IndexError
      else
        let track_ids = map fst (tracks s);
            iou_matrix = map (\<lambda>detection. map (\<lambda>(track_id, t). calculate_iou detection (bbox t)) (tracks s))
                           detections;
            ds = zip detections (zip class_ids confs);
            u0 = \<lparr>u_tracks = tracks s, u_history = track_history s, u_next_id = next_id s,
                   u_result = [], tracked_dets = [], tracked_tracks = []\<rparr>;
            u1 = (if length (tracks s) > 0
                  then match_loop (iou_threshold s) now track_ids
                         (zip [0..<length detections] (zip ds iou_matrix)) u0
                  else u0);
            u2 = new_loop now (zip [0..<length detections] ds) u1;
            trks = age_loop (max_missed_frames s) (tracked_tracks u2)
                     (zip [0..<length track_ids] track_ids) (u_tracks u2)
        in Inr (u_result u2,
                s\<lparr>tracks := trks, track_history := u_history u2, next_id := u_next_id u2\<rparr>))"

text \<open>
  The live set of a tracker is the key set of \<open>self.tracks\<close>. A well-formed tracker has
  distinct keys (it is a dict) below \<open>next_id\<close>; every tracker reached from a new one by
  \<open>update\<close> calls is well formed.
\<close>

definition live_ids :: "tracker \<Rightarrow> nat set" where
  "live_ids s = fst ` set (tracks s)"

definition wf_tracker :: "tracker \<Rightarrow> bool" where
  "wf_tracker s = (distinct (map fst (tracks s)) \<and> (\<forall>k\<in>set (map fst (tracks s)). k < next_id s))"

definition result_ids :: "tracked_object list \<Rightarrow> nat set" where
  "result_ids res = set (map track_id_of res)"

definition missed_of :: "tracker \<Rightarrow> nat \<Rightarrow> nat option" where
  "missed_of s k = map_option missed_count (map_of (tracks s) k)"

text \<open>
  A frame is one call of \<open>update\<close>: the clock reading and the three argument lists.
  \<open>updates\<close> runs the calls in turn and stops at the first exception.
\<close>

type_synonym frame = "real \<times> bbox list \<times> int list \<times> real list"

definition update_frame :: "tracker \<Rightarrow> frame \<Rightarrow> py_exception + (tracked_object list \<times> tracker)" where
  "update_frame s f = (case f of (now, detections, class_ids, confs) \<Rightarrow> update now s detections class_ids confs)"

fun updates :: "tracker \<Rightarrow> frame list \<Rightarrow> py_exception + tracker" where
  "updates s [] = Inr s"
| "updates s (f # fs) = (case update_frame s f of Inl e \<Rightarrow> Inl e | Inr (res, s') \<Rightarrow> updates s' fs)"

text \<open>
  A run of calls in which no result names the track \<open>k\<close>: every call returns and the
  track receives no detection (a track named in a result was matched or created by the
  call).
\<close>

fun unmatched_run :: "nat \<Rightarrow> tracker \<Rightarrow> frame list \<Rightarrow> bool" where
  "unmatched_run k s [] = True"
| "unmatched_run k s (f # fs) =
     (case update_frame s f of
        Inl e \<Rightarrow> False
      | Inr (res, s') \<Rightarrow> k \<notin> result_ids res \<and> unmatched_run k s' fs)"

text \<open>Boxes, frames and trackers for the examples.\<close>

definition box_a :: bbox where "box_a = (0, 0, 10, 10)"
definition box_half :: bbox where "box_half = (0, 0, 10, 5)"
definition box_six :: bbox where "box_six = (0, 0, 10, 6)"
definition box_nine :: bbox where "box_nine = (0, 0, 10, 9)"

definition entry_a :: history_entry where
  "entry_a = \<lparr>h_bbox = box_a, h_time = 0, h_class_id = 0, h_conf = 9 / 10\<rparr>"

definition one_track :: "nat \<Rightarrow> tracker" where
  "one_track mx =
     \<lparr>iou_threshold = 1 / 2, max_missed_frames = mx, next_id = 2,
      tracks = [(1, \<lparr>bbox = box_a, missed_count = 0, class_id = 0, conf = 9 / 10\<rparr>)],
      track_history = [1 \<mapsto> [entry_a]]\<rparr>"

definition empty_frame :: "real \<Rightarrow> frame" where
  "empty_frame now = (now, [], [], [])"

subsection \<open>Invariants of the loops of \<open>update\<close>\<close>

text \<open>What an unmatched call does to a track: one more missed frame, or deletion.\<close>

definition aged :: "nat \<Rightarrow> track \<Rightarrow> track option" where
  "aged mx t = (if missed_count t + 1 > mx then None else Some (t\<lparr>missed_count := missed_count t + 1\<rparr>))"

text \<open>
  The matching loop: the keys stay as they are, the tracks matched so far are exactly
  those of the indices in \<open>tracked_tracks\<close>, they have missed no frame, and every other
  track and history is untouched.
\<close>

definition match_inv :: "nat list \<Rightarrow> (nat \<times> track) list \<Rightarrow> (nat \<rightharpoonup> history_entry list) \<Rightarrow> nat \<Rightarrow>
    update_state \<Rightarrow> bool" where
  "match_inv track_ids trks0 hist0 n0 u =
     (map fst (u_tracks u) = track_ids \<and>
      (\<forall>j\<in>set (tracked_tracks u). j < length track_ids) \<and>
      map track_id_of (u_result u) = map ((!) track_ids) (tracked_tracks u) \<and>
      u_next_id u = n0 \<and>
      (\<forall>k. k \<notin> (!) track_ids ` set (tracked_tracks u) \<longrightarrow>
           map_of (u_tracks u) k = map_of trks0 k \<and> u_history u k = hist0 k) \<and>
      (\<forall>k\<in>(!) track_ids ` set (tracked_tracks u).
           (\<exists>t. map_of (u_tracks u) k = Some t \<and> missed_count t = 0) \<and>
           (\<exists>h. u_history u k = Some h \<and> h \<noteq> [])))"

text \<open>The loop that creates tracks: ids from \<open>next_id\<close> on, nothing below is touched.\<close>

definition keys_below :: "update_state \<Rightarrow> bool" where
  "keys_below u = (distinct (map fst (u_tracks u)) \<and> (\<forall>k\<in>set (map fst (u_tracks u)). k < u_next_id u))"

definition extends :: "update_state \<Rightarrow> update_state \<Rightarrow> bool" where
  "extends u u' =
     (u_next_id u \<le> u_next_id u' \<and>
      (\<forall>k<u_next_id u. map_of (u_tracks u') k = map_of (u_tracks u) k \<and> u_history u' k = u_history u k) \<and>
      (\<forall>k. u_next_id u \<le> k \<and> k < u_next_id u' \<longrightarrow>
           (\<exists>t. map_of (u_tracks u') k = Some t \<and> missed_count t = 0) \<and>
           (\<exists>h. u_history u' k = Some h \<and> h \<noteq> [])) \<and>
      set (map track_id_of (u_result u')) = set (map track_id_of (u_result u)) \<union> {u_next_id u..<u_next_id u'} \<and>
      tracked_tracks u' = tracked_tracks u)"

text \<open>Every live track has a history with at least one entry.\<close>

definition has_histories :: "tracker \<Rightarrow> bool" where
  "has_histories s = (\<forall>k\<in>live_ids s. \<exists>h. track_history s k = Some h \<and> h \<noteq> [])"

text \<open>
  A call with one detection: the search either finds no track, and the detection founds
  the track \<open>next_id\<close>, or it finds the column \<open>j\<close>, and the detection goes to the track
  of that column.
\<close>

definition single_choice :: "tracker \<Rightarrow> bbox \<Rightarrow> nat option" where
  "single_choice s B =
     (if tracks s = [] then None
      else best_track [] (map (\<lambda>(track_id, t). calculate_iou B (bbox t)) (tracks s)) 0 (iou_threshold s) None)"

section \<open>RingScreen: \<open>IoUTracker\<close> of \<open>emotion_detect_normalize_ai_ver2.py\<close>\<close>

text \<open>
  The second tracker: a track is a dict with the keys \<open>bbox\<close> and \<open>missed\<close>, and
  \<open>self.tracks\<close> is again an insertion-ordered dict.
\<close>

record face_track =
  face_bbox :: bbox
  missed :: nat

record ring_tracker =
  ring_iou_threshold :: real
  max_missed :: nat
  ring_next_id :: nat
  ring_tracks :: "(nat \<times> face_track) list"

definition Ring_IoUTracker :: "real \<Rightarrow> nat \<Rightarrow> ring_tracker" where
  "Ring_IoUTracker thr mx =
     \<lparr>ring_iou_threshold = thr, max_missed = mx, ring_next_id = 1, ring_tracks = []\<rparr>"

text \<open>Lines 128 to 135: the entry of the matrix for the track box \<open>b\<close> and the detection \<open>d\<close>.\<close>

definition ring_iou :: "bbox \<Rightarrow> bbox \<Rightarrow> real" where
  "ring_iou b d =
     (case b of (b0, b1, b2, b3) \<Rightarrow> case d of (d0, d1, d2, d3) \<Rightarrow>
        let xa = max b0 d0; ya = max b1 d1;
            xb = min b2 d2; yb = min b3 d3;
            wi = max 0 (xb - xa); hi = max 0 (yb - ya);
            inter = wi * hi;
            a1 = (b2 - b0) * (b3 - b1); a2 = (d2 - d0) * (d3 - d1);
            union = a1 + a2 - inter
        in if union > 0 then of_int inter / of_int union else 0)"

text \<open>
  Lines 121 to 123 and 146 to 148: a new track for the detection \<open>d\<close>. The state is the
  dict, \<open>next_id\<close> and the result list.
\<close>

definition ring_new_track :: "bbox \<Rightarrow> (nat \<times> face_track) list \<times> nat \<times> (nat \<times> bbox) list \<Rightarrow>
    (nat \<times> face_track) list \<times> nat \<times> (nat \<times> bbox) list" where
  "ring_new_track d st =
     (case st of (trks, nid, results) \<Rightarrow>
        (AList.update nid \<lparr>face_bbox = d, missed = 0\<rparr> trks, nid + 1, results @ [(nid, d)]))"

text \<open>
  Line 136: the qualifying entries of the matrix, row by row, then
  \<open>sorted(..., key=lambda x: x[0], reverse=True)\<close>: a stable sort, entries of equal IoU
  keep the order of the list.
\<close>

definition ring_pairs :: "real \<Rightarrow> real list list \<Rightarrow> nat \<Rightarrow> nat \<Rightarrow> (real \<times> nat \<times> nat) list" where
  "ring_pairs thr m n_dets n_tids =
     sort_key (\<lambda>(v, i, j). - v)
       [(m ! i ! j, i, j). i \<leftarrow> [0..<n_dets], j \<leftarrow> [0..<n_tids], m ! i ! j \<ge> thr]"

text \<open>Lines 137 to 141: the greedy pass over the sorted pairs.\<close>

fun ring_greedy :: "nat list \<Rightarrow> bbox list \<Rightarrow> (real \<times> nat \<times> nat) list \<Rightarrow>
    (nat \<times> bbox) list \<times> nat list \<times> nat list \<Rightarrow> (nat \<times> bbox) list \<times> nat list \<times> nat list" where
  "ring_greedy tids detections [] acc = acc"
| "ring_greedy tids detections ((v, i, j) # ps) (results, used_t, used_d) =
     (let tid = tids ! j
      in if tid \<in> set used_t \<or> i \<in> set used_d
         then ring_greedy tids detections ps (results, used_t, used_d)
         else ring_greedy tids detections ps
                (results @ [(tid, detections ! i)], used_t @ [tid], used_d @ [i]))"

text \<open>Lines 142 and 143, 149 and 150, 151 and 152.\<close>

definition ring_set_matched :: "(nat \<times> bbox) list \<Rightarrow> (nat \<times> face_track) list \<Rightarrow> (nat \<times> face_track) list" where
  "ring_set_matched results trks =
     fold (\<lambda>(tid, bb) ts. AList.update tid \<lparr>face_bbox = bb, missed = 0\<rparr> ts) results trks"

definition ring_miss :: "nat list \<Rightarrow> nat \<Rightarrow> (nat \<times> face_track) list \<Rightarrow> (nat \<times> face_track) list" where
  "ring_miss used_t tid trks =
     (if tid \<in> set used_t then trks
      else (case map_of trks tid of
              None \<Rightarrow> trks
            | Some t \<Rightarrow> AList.update tid (t\<lparr>missed := missed t + 1\<rparr>) trks))"

definition ring_delete_missed :: "nat \<Rightarrow> (nat \<times> face_track) list \<Rightarrow> (nat \<times> face_track) list" where
  "ring_delete_missed mx trks = filter (\<lambda>(tid, t). \<not> missed t > mx) trks"

text \<open>
  The matching of a call on a tracker with live tracks: the matrix, the sorted pairs and
  the greedy pass (lines 125 to 141).
\<close>

definition ring_match :: "ring_tracker \<Rightarrow> bbox list \<Rightarrow> (nat \<times> bbox) list \<times> nat list \<times> nat list" where
  "ring_match s detections =
     (let tids = map fst (ring_tracks s);
          m = map (\<lambda>d. map (\<lambda>(tid, t). ring_iou (face_bbox t) d) (ring_tracks s)) detections;
          pairs = ring_pairs (ring_iou_threshold s) m (length detections) (length tids)
      in ring_greedy tids detections pairs ([], [], []))"

text \<open>\<open>update(detections)\<close>: the list returned and the tracker after the call.\<close>

definition ring_update :: "ring_tracker \<Rightarrow> bbox list \<Rightarrow> (nat \<times> bbox) list \<times> ring_tracker" where
  "ring_update s detections =
     (let tids = map fst (ring_tracks s)
      in if tids = [] then
           (case fold ring_new_track detections (ring_tracks s, ring_next_id s, []) of
              (trks, nid, results) \<Rightarrow> (results, s\<lparr>ring_tracks := trks, ring_next_id := nid\<rparr>))
         else
           (case ring_match s detections of
              (results, used_t, used_d) \<Rightarrow>
                let trks1 = ring_set_matched results (ring_tracks s)
                in (case fold (\<lambda>(idx, d) st. if idx \<in> set used_d then st else ring_new_track d st)
                           (zip [0..<length detections] detections)
                           (trks1, ring_next_id s, results) of
                      (trks2, nid, results') \<Rightarrow>
                        let trks3 = fold (ring_miss used_t) tids trks2;
                            trks4 = ring_delete_missed (max_missed s) trks3
                        in (results', s\<lparr>ring_tracks := trks4, ring_next_id := nid\<rparr>))))"

fun ring_updates :: "ring_tracker \<Rightarrow> bbox list list \<Rightarrow> ring_tracker" where
  "ring_updates s [] = s"
| "ring_updates s (ds # dss) = ring_updates (snd (ring_update s ds)) dss"

definition ring_live_ids :: "ring_tracker \<Rightarrow> nat set" where
  "ring_live_ids s = fst ` set (ring_tracks s)"

text \<open>
  A well-formed tracker has its keys in increasing order (ids are handed out in increasing
  order and a dict keeps insertion order) and below \<open>next_id\<close>.
\<close>

definition ring_wf :: "ring_tracker \<Rightarrow> bool" where
  "ring_wf s = (sorted_wrt (<) (map fst (ring_tracks s)) \<and>
                (\<forall>k\<in>set (map fst (ring_tracks s)). k < ring_next_id s))"

text \<open>Frames and trackers for the examples: one face, then none, then one again.\<close>

definition frame_a :: "real \<Rightarrow> frame" where
  "frame_a now = (now, [box_a], [0], [9 / 10])"

definition none_live :: tracker where
  "none_live = (one_track 0)\<lparr>tracks := []\<rparr>"

definition second_track :: tracker where
  "second_track =
     \<lparr>iou_threshold = 1 / 2, max_missed_frames = 0, next_id = 3,
      tracks = [(2, \<lparr>bbox = box_a, missed_count = 0, class_id = 0, conf = 9 / 10\<rparr>)],
      track_history = [1 \<mapsto> [entry_a], 2 \<mapsto> [entry_a\<lparr>h_time := 2\<rparr>]]\<rparr>"

definition ring_one :: ring_tracker where
  "ring_one = \<lparr>ring_iou_threshold = 1 / 2, max_missed = 0, ring_next_id = 2,
               ring_tracks = [(1, \<lparr>face_bbox = box_a, missed = 0\<rparr>)]\<rparr>"

definition ring_none :: ring_tracker where
  "ring_none = \<lparr>ring_iou_threshold = 1 / 2, max_missed = 0, ring_next_id = 2, ring_tracks = []\<rparr>"

definition ring_second :: ring_tracker where
  "ring_second = \<lparr>ring_iou_threshold = 1 / 2, max_missed = 0, ring_next_id = 3,
                  ring_tracks = [(2, \<lparr>face_bbox = box_a, missed = 0\<rparr>)]\<rparr>"

section \<open>The matching policy of the specification\<close>

text \<open>
  The canonical policy in the words of the specification: collect all (detection, track)
  pairs whose IoU is at least the threshold, sort them by IoU descending (ties by lowest
  track id, then by detection order), and accept a pair when neither its detection nor
  its track has been claimed by an accepted pair. A candidate is \<open>(IoU, track id,
  detection index)\<close>; an accepted pair is \<open>(detection index, track id)\<close>.
\<close>

fun accept_pairs :: "(nat \<times> nat) list \<Rightarrow> (nat \<times> nat) list \<Rightarrow> (nat \<times> nat) list" where
  "accept_pairs [] accepted = accepted"
| "accept_pairs ((i, tid) # ps) accepted =
     (if i \<in> fst ` set accepted \<or> tid \<in> snd ` set accepted then accept_pairs ps accepted
      else accept_pairs ps (accepted @ [(i, tid)]))"

definition spec_candidates :: "real \<Rightarrow> (bbox \<Rightarrow> bbox \<Rightarrow> real) \<Rightarrow> bbox list \<Rightarrow> (nat \<times> bbox) list \<Rightarrow>
    (real \<times> nat \<times> nat) list" where
  "spec_candidates thr iou dets boxes =
     [(iou b (dets ! i), tid, i). (tid, b) \<leftarrow> boxes, i \<leftarrow> [0..<length dets], iou b (dets ! i) \<ge> thr]"

definition spec_canonical_matching :: "real \<Rightarrow> (bbox \<Rightarrow> bbox \<Rightarrow> real) \<Rightarrow> bbox list \<Rightarrow> (nat \<times> bbox) list \<Rightarrow>
    (nat \<times> nat) list" where
  "spec_canonical_matching thr iou dets boxes =
     accept_pairs
       (map (\<lambda>(v, tid, i). (i, tid))
          (sort_key (\<lambda>(v, tid, i). (- v, tid, i)) (spec_candidates thr iou dets boxes)))
       []"

text \<open>
  The pairs (detection index, track id) the RingScreen \<open>update\<close> matches: the greedy
  pass records them in \<open>used_d\<close> and \<open>used_t\<close>. The boxes of the live tracks are what the
  policy is given.
\<close>

definition ring_matching :: "ring_tracker \<Rightarrow> bbox list \<Rightarrow> (nat \<times> nat) list" where
  "ring_matching s detections =
     (case ring_match s detections of (results, used_t, used_d) \<Rightarrow> zip used_d used_t)"

definition ring_boxes :: "ring_tracker \<Rightarrow> (nat \<times> bbox) list" where
  "ring_boxes s = map (\<lambda>(tid, t). (tid, face_bbox t)) (ring_tracks s)"

subsection \<open>Orders on candidate pairs\<close>

text \<open>
  Two pairs are in conflict when they share the detection or the track. \<open>pair_iou\<close> is
  the IoU of a pair (detection index, track id); \<open>code_before\<close> is the order in which
  the sorted list of line 136 presents the pairs (IoU descending, ties in the order of
  the matrix: by detection, then by track), \<open>spec_before\<close> the order of the
  specification (IoU descending, ties by track id, then by detection).
\<close>

definition in_conflict :: "nat \<times> nat \<Rightarrow> nat \<times> nat \<Rightarrow> bool" where
  "in_conflict p q = (fst p = fst q \<or> snd p = snd q)"

definition pair_iou :: "bbox list \<Rightarrow> (nat \<times> bbox) list \<Rightarrow> nat \<times> nat \<Rightarrow> real" where
  "pair_iou dets boxes p = (case map_of boxes (snd p) of None \<Rightarrow> 0 | Some b \<Rightarrow> ring_iou b (dets ! fst p))"

definition code_before :: "bbox list \<Rightarrow> (nat \<times> bbox) list \<Rightarrow> nat \<times> nat \<Rightarrow> nat \<times> nat \<Rightarrow> bool" where
  "code_before dets boxes p q =
     (pair_iou dets boxes p > pair_iou dets boxes q \<or>
      (pair_iou dets boxes p = pair_iou dets boxes q \<and>
       (fst p < fst q \<or> (fst p = fst q \<and> snd p < snd q))))"

definition spec_before :: "bbox list \<Rightarrow> (nat \<times> bbox) list \<Rightarrow> nat \<times> nat \<Rightarrow> nat \<times> nat \<Rightarrow> bool" where
  "spec_before dets boxes p q =
     (pair_iou dets boxes p > pair_iou dets boxes q \<or>
      (pair_iou dets boxes p = pair_iou dets boxes q \<and>
       (snd p < snd q \<or> (snd p = snd q \<and> fst p \<le> fst q))))"

text \<open>The two lists the greedy pass runs over, as lists of pairs.\<close>

definition code_list :: "ring_tracker \<Rightarrow> bbox list \<Rightarrow> (nat \<times> nat) list" where
  "code_list s dets =
     map (\<lambda>(v, i, j). (i, map fst (ring_tracks s) ! j))
       (ring_pairs (ring_iou_threshold s)
          (map (\<lambda>d. map (\<lambda>(tid, t). ring_iou (face_bbox t) d) (ring_tracks s)) dets)
          (length dets) (length (ring_tracks s)))"

definition spec_list :: "real \<Rightarrow> bbox list \<Rightarrow> (nat \<times> bbox) list \<Rightarrow> (nat \<times> nat) list" where
  "spec_list thr dets boxes =
     map (\<lambda>(v, tid, i). (i, tid))
       (sort_key (\<lambda>(v, tid, i). (- v, tid, i)) (spec_candidates thr ring_iou dets boxes))"

section \<open>The window summary of the RingScreen loop\<close>

lemma max_categories_nonempty: "max_categories (vals_of cnt) \<noteq> []"
proof -
  let ?vs = "vals_of cnt"
  have "Max (set (map snd ?vs)) \<in> set (map snd ?vs)"
    by (rule Max_in) (simp_all add: vals_of_def)
  then obtain p where "p \<in> set ?vs" "snd p = Max (set (map snd ?vs))" by auto
  then have "fst p \<in> set (max_categories ?vs)"
    by (force simp: max_categories_def Let_def)
  then show ?thesis by auto
qed

lemma max_categories_mem:
  "c \<in> set (max_categories (vals_of cnt)) \<Longrightarrow>
   cnt c = Max {cnt Active, cnt Calm, cnt Hesitant, cnt Anxious}"
  by (auto simp: max_categories_def vals_of_def Let_def split: if_splits)

lemma total_cat_mem:
  "\<exists>c. total_cat r (vals_of cnt) = Inr c \<and> c \<in> set (max_categories (vals_of cnt))"
proof (cases "length (max_categories (vals_of cnt)) > 1")
  case True
  then have "random_choice r (max_categories (vals_of cnt)) \<in> set (max_categories (vals_of cnt))"
    unfolding random_choice_def by (intro nth_mem mod_less_divisor) linarith
  with True show ?thesis by (simp add: total_cat_def Let_def)
next
  case False
  with max_categories_nonempty[of cnt] show ?thesis
    by (cases "max_categories (vals_of cnt)") (auto simp: total_cat_def Let_def)
qed

lemma example_max_categories: "max_categories (vals_of example_counts) = [Active, Calm]"
  by (simp add: max_categories_def vals_of_def example_counts_def Let_def)

lemma emit_summary_first_call:
  "total_cat r (vals_of (counts st)) = Inr c \<Longrightarrow>
   \<exists>rest. summary_calls (emit_summary sink reply r st []) =
     AgentEmotion c (category_to_index c) (counts st Active) (counts st Calm)
       (counts st Hesitant) (counts st Anxious) # rest"
  by (simp add: emit_summary_def summary_calls_def Let_def)

text \<open>
  C7. When a window completes, the first message of the summary is \<open>/agent_emotion\<close>
  with a category that is one of those whose count is the greatest of the four, whatever
  the random draw and whether or not the sends succeed. For the counts active 5, calm 5,
  hesitant 1, anxious 1 the category chosen is active or calm.
\<close>

theorem majority_tie_membership:
  "(\<exists>c rest. c \<in> set (max_categories (vals_of (counts st))) \<and>
      counts st c = Max {counts st Active, counts st Calm, counts st Hesitant, counts st Anxious} \<and>
      summary_calls (emit_summary sink reply r st []) =
        AgentEmotion c (category_to_index c) (counts st Active) (counts st Calm)
          (counts st Hesitant) (counts st Anxious) # rest) \<and>
   (\<exists>c. total_cat r (vals_of example_counts) = Inr c \<and> c \<in> {Active, Calm})"
proof -
  obtain c where c: "total_cat r (vals_of (counts st)) = Inr c"
    "c \<in> set (max_categories (vals_of (counts st)))"
    using total_cat_mem by blast
  have m: "counts st c = Max {counts st Active, counts st Calm, counts st Hesitant, counts st Anxious}"
    using c(2) by (rule max_categories_mem)
  obtain d where d: "total_cat r (vals_of example_counts) = Inr d"
    "d \<in> set (max_categories (vals_of example_counts))"
    using total_cat_mem by blast
  from d(2) have "d \<in> {Active, Calm}" by (simp add: example_max_categories)
  with c(2) m d(1) emit_summary_first_call[OF c(1), of sink reply] show ?thesis by blast
qed

lemma emit_summary_resets:
  assumes "\<forall>c i a b h x. sink (AgentEmotion c i a b h x)" and "\<forall>w. sink (AgentWord w)"
  shows "\<exists>m. is_summary m \<and>
     emit_summary sink reply r st calls =
       Inr (calls @ [m, AgentWord (send_ai_query reply)], st\<lparr>counts := zero_counts, sample_count := 0\<rparr>)"
proof -
  obtain c where "total_cat r (vals_of (counts st)) = Inr c" using total_cat_mem by blast
  then show ?thesis using assms
    by (simp add: emit_summary_def Let_def is_summary_def)
qed

text \<open>
  C8, as amended. When a sampling tick completes a window and both \<open>send_message\<close> calls
  of the summary return, the tick sends one \<open>/agent_emotion\<close> and one \<open>/agent_word\<close>
  message and leaves all four counters and the tick counter at zero; this holds for every
  outcome of the enrichment request, whose failures give the empty word.
\<close>

theorem window_reset_on_completion:
  assumes "window_completes now st"
    and "\<forall>c i a b h x. sink (AgentEmotion c i a b h x)" and "\<forall>w. sink (AgentWord w)"
  shows "\<exists>m. is_summary m \<and>
     sample_tick sink reply r now cats st calls =
       Inr (calls @ [m, AgentWord (send_ai_query reply)],
            \<lparr>last_sample = now, sample_count = 0, counts = zero_counts\<rparr>)"
proof -
  let ?st1 = "st\<lparr>counts := fold bump cats (counts st),
                 sample_count := sample_count st + 1, last_sample := now\<rparr>"
  from emit_summary_resets[OF assms(2,3), of reply r ?st1 calls]
  obtain m where m: "is_summary m"
    "emit_summary sink reply r ?st1 calls =
       Inr (calls @ [m, AgentWord (send_ai_query reply)], ?st1\<lparr>counts := zero_counts, sample_count := 0\<rparr>)"
    by blast
  from assms(1) have "sample_tick sink reply r now cats st calls = emit_summary sink reply r ?st1 calls"
    by (simp add: sample_tick_def window_completes_def Let_def)
  with m show ?thesis by auto
qed

text \<open>
  The twelfth tick of a window, with a failed enrichment request: the summary goes out
  with the empty word and the counters are reset.
\<close>

theorem window_reset_on_completion_witness:
  "window_completes 3 window_start \<and>
   (\<exists>m. is_summary m \<and>
      sample_tick sink_returns Post_raises 0 3 [Active] window_start [] =
        Inr ([] @ [m, AgentWord (send_ai_query Post_raises)],
             \<lparr>last_sample = 3, sample_count = 0, counts = zero_counts\<rparr>)) \<and>
   send_ai_query Post_raises = ''''"
proof -
  have w: "window_completes 3 window_start"
    by (simp add: window_completes_def window_start_def SAMPLE_INTERVAL_def SAMPLES_PER_SUMMARY_def)
  have s1: "\<forall>c i a b h x. sink_returns (AgentEmotion c i a b h x)" by (simp add: sink_returns_def)
  have s2: "\<forall>w. sink_returns (AgentWord w)" by (simp add: sink_returns_def)
  show ?thesis
    using w window_reset_on_completion[OF w s1 s2, of Post_raises 0 "[Active]" "[]"]
    by (simp add: send_ai_query_def)
qed

text \<open>
  C8 as stated fails: when \<open>send_message\<close> raises on the summary, the exception leaves
  the loop with the tick counter at 12 and the counters as they were; line 223 is not
  reached.
\<close>

theorem window_reset_counterexample:
  "window_completes 3 window_start \<and>
   sample_tick sink_raises (Reply 200 (Some ''ok'')) 0 3 [Active] window_start [] =
     Inl (OSError, [AgentEmotion Active 0 1 0 0 0],
          \<lparr>last_sample = 3, sample_count = 12, counts = zero_counts(Active := 1)\<rparr>)"
  by (simp add: sample_tick_def window_start_def SAMPLE_INTERVAL_def SAMPLES_PER_SUMMARY_def
        emit_summary_def total_cat_def max_categories_def vals_of_def bump_def zero_counts_def
        sink_raises_def window_completes_def Let_def)

section \<open>The \<open>/no_face\<close> message of the RingScreen loop\<close>

lemma face_msg_not_NoFace: "face_msg tid bb emo \<noteq> NoFace"
  by (cases bb) (simp add: face_msg_def Let_def)

lemma face_loop_has_face:
  "face_loop sink analyze ts (cats, hf, calls) = (cats', hf', calls') \<Longrightarrow>
   hf' = (hf \<or> (\<exists>t\<in>set ts. reported sink analyze t)) \<and>
   count_list calls' NoFace = count_list calls NoFace"
proof (induction ts arbitrary: cats hf calls)
  case Nil
  then show ?case by simp
next
  case (Cons t ts)
  obtain tid bb where t: "t = (tid, bb)" by (cases t)
  show ?case
  proof (cases "analyze (tid, bb)")
    case None
    with Cons.prems t have "face_loop sink analyze ts (cats, hf, calls) = (cats', hf', calls')" by simp
    from Cons.IH[OF this] None t show ?thesis by (simp add: reported_def)
  next
    case (Some emo)
    let ?cats = "(case emotion_to_category emo of None \<Rightarrow> cats | Some cat \<Rightarrow> cats @ [cat])"
    let ?m = "face_msg tid bb emo"
    show ?thesis
    proof (cases "sink ?m")
      case True
      with Cons.prems t Some have "face_loop sink analyze ts (?cats, True, calls @ [?m]) = (cats', hf', calls')"
        by (simp add: Let_def)
      from Cons.IH[OF this] Some t True show ?thesis
        by (simp add: reported_def face_msg_not_NoFace)
    next
      case False
      with Cons.prems t Some have "face_loop sink analyze ts (?cats, hf, calls @ [?m]) = (cats', hf', calls')"
        by (simp add: Let_def)
      from Cons.IH[OF this] Some t False show ?thesis
        by (simp add: reported_def face_msg_not_NoFace)
    qed
  qed
qed

text \<open>
  C9, as amended. On every frame \<open>/no_face\<close> is sent exactly once when no resolved track
  of the frame was reported (its analysis returned and its \<open>/face\<close> message was sent), in
  particular when the frame has no resolved track; it is not sent when at least one
  track was reported.
\<close>

theorem absent_event_condition:
  "count_list (faces_calls (emit_faces sink analyze resolved)) NoFace =
     (if (\<exists>t\<in>set resolved. reported sink analyze t) then 0 else 1)"
proof -
  obtain cats hf calls where fl: "face_loop sink analyze resolved ([], False, []) = (cats, hf, calls)"
    by (metis prod_cases3)
  from face_loop_has_face[OF fl]
  have hf: "hf = (\<exists>t\<in>set resolved. reported sink analyze t)" and cnt: "count_list calls NoFace = 0"
    by simp_all
  show ?thesis using fl hf cnt
    by (simp add: emit_faces_def faces_calls_def)
qed

theorem absent_event_condition_witness:
  "count_list (faces_calls (emit_faces sink_returns analyze_happy [])) NoFace = 1 \<and>
   count_list (faces_calls (emit_faces sink_returns analyze_happy [(1, (0, 0, 10, 10))])) NoFace = 0"
  using absent_event_condition[of sink_returns analyze_happy "[]"]
    absent_event_condition[of sink_returns analyze_happy "[(1, (0, 0, 10, 10))]"]
  by (simp add: reported_def sink_returns_def analyze_happy_def)

text \<open>
  C9 as stated fails: a frame with one resolved track whose analysis raises sends
  \<open>/no_face\<close>.
\<close>

theorem absent_event_counterexample:
  "[(1::nat, (0::int, 0::int, 10::int, 10::int))] \<noteq> [] \<and>
   emit_faces sink_returns analyze_raises [(1, (0, 0, 10, 10))] = Inr ([], [NoFace])"
  by (simp add: emit_faces_def analyze_raises_def sink_returns_def)

section \<open>The report gate\<close>

lemma rfd_last [simp]:
  "last_sent_time (record_first_detection now st tid) = last_sent_time st"
  "last_sent_state (record_first_detection now st tid) = last_sent_state st"
  by (simp_all add: record_first_detection_def split: option.splits)

lemma rfd_first:
  "first_detection_time (record_first_detection now st tid) t =
     (if t = tid \<and> first_detection_time st tid = None then Some now else first_detection_time st t)"
  by (simp add: record_first_detection_def split: option.splits)

lemma rfd_preds:
  "is_first_detection (record_first_detection now st tid) t = is_first_detection st t"
  "cooldown_passed cfg now' (record_first_detection now st tid) t = cooldown_passed cfg now' st t"
  "state_changed (record_first_detection now st tid) t cur = state_changed st t cur"
  by (simp_all add: is_first_detection_def cooldown_passed_def state_changed_def)

lemma spec_emit_code:
  "spec_emit (SEND_ONLY_CHANGES cfg) (RESEND_COOLDOWN cfg) now st tid cur =
   (is_first_detection st tid \<or> (cooldown_passed cfg now st tid \<and> (\<not> SEND_ONLY_CHANGES cfg \<or> state_changed st tid cur)))"
proof -
  have a: "spec_is_first st tid = is_first_detection st tid"
    by (auto simp: spec_is_first_def is_first_detection_def)
  have b: "spec_cooldown_passed (RESEND_COOLDOWN cfg) now st tid = cooldown_passed cfg now st tid"
    by (simp add: spec_cooldown_passed_def cooldown_passed_def)
  have c: "spec_state_changed st tid cur = state_changed st tid cur"
    by (cases cur) (auto simp: spec_state_changed_def state_changed_def differs_def split: option.splits)
  show ?thesis unfolding spec_emit_def a b c ..
qed

text \<open>The body of the loop, for an object whose send returns.\<close>

lemma letter_gate_eq:
  assumes "frame_width \<noteq> 0" "frame_height \<noteq> 0" and "sink (current_state frame_width frame_height obj)"
  shows "letter_gate cfg frame_width frame_height sink now st obj =
     (let tid = track_id_of obj; cur = current_state frame_width frame_height obj;
          st1 = record_first_detection now st tid
      in if emits cfg frame_width frame_height now st obj
         then Inr ([cur], st1\<lparr>last_sent_time := (last_sent_time st)(tid \<mapsto> now),
                               last_sent_state := (last_sent_state st)(tid \<mapsto> cur)\<rparr>)
         else Inr ([], st1))"
  using assms
  by (auto simp: letter_gate_def Let_def emits_def spec_emit_code passes_stability_filter_def rfd_preds)

text \<open>Whether a report is due for an object depends on the entries of its own track only.\<close>

lemma emits_local:
  assumes "first_detection_time st2 (track_id_of obj) = first_detection_time st (track_id_of obj)"
    and "last_sent_time st2 (track_id_of obj) = last_sent_time st (track_id_of obj)"
    and "last_sent_state st2 (track_id_of obj) = last_sent_state st (track_id_of obj)"
  shows "emits cfg fw fh now st2 obj = emits cfg fw fh now st obj"
proof -
  obtain x1 y1 x2 y2 tid cls cf where obj: "obj = (x1, y1, x2, y2, tid, cls, cf)" by (cases obj)
  from assms have e: "first_detection_time st2 tid = first_detection_time st tid"
    "last_sent_time st2 tid = last_sent_time st tid" "last_sent_state st2 tid = last_sent_state st tid"
    by (simp_all add: obj track_id_of_def)
  have "is_stable cfg now st2 obj = is_stable cfg now st obj"
    by (simp add: is_stable_def obj e)
  moreover have "spec_emit (SEND_ONLY_CHANGES cfg) (RESEND_COOLDOWN cfg) now st2 tid (current_state fw fh obj) =
      spec_emit (SEND_ONLY_CHANGES cfg) (RESEND_COOLDOWN cfg) now st tid (current_state fw fh obj)"
    by (simp add: spec_emit_code is_first_detection_def cooldown_passed_def state_changed_def e)
  moreover have "track_id_of obj = tid" by (simp add: obj track_id_of_def)
  ultimately show ?thesis by (simp add: emits_def passes_stability_filter_def)
qed

text \<open>
  The whole loop, for objects of distinct tracks whose sends return: the messages are the
  states of the objects for which a report is due, and the dispatch state changes at the
  tracks of the objects only.
\<close>

lemma gate_run:
  assumes "fw \<noteq> 0" "fh \<noteq> 0" and "distinct (map track_id_of objs)"
    and "\<forall>obj\<in>set objs. sink (current_state fw fh obj)"
  shows "\<exists>st'. send_letter_detection_results cfg fw fh sink now st objs =
            Inr (map (current_state fw fh) (filter (emits cfg fw fh now st) objs), st') \<and>
          (\<forall>obj\<in>set objs.
             last_sent_time st' (track_id_of obj) =
               (if emits cfg fw fh now st obj then Some now else last_sent_time st (track_id_of obj)) \<and>
             last_sent_state st' (track_id_of obj) =
               (if emits cfg fw fh now st obj then Some (current_state fw fh obj)
                else last_sent_state st (track_id_of obj))) \<and>
          (\<forall>tid. tid \<notin> track_id_of ` set objs \<longrightarrow>
             first_detection_time st' tid = first_detection_time st tid \<and>
             last_sent_time st' tid = last_sent_time st tid \<and>
             last_sent_state st' tid = last_sent_state st tid)"
  using assms(3,4)
proof (induction objs arbitrary: st)
  case Nil
  then show ?case by simp
next
  case (Cons obj objs)
  define tid where "tid = track_id_of obj"
  define cur where "cur = current_state fw fh obj"
  define st1 where "st1 = (if emits cfg fw fh now st obj
      then (record_first_detection now st tid)\<lparr>last_sent_time := (last_sent_time st)(tid \<mapsto> now),
              last_sent_state := (last_sent_state st)(tid \<mapsto> cur)\<rparr>
      else record_first_detection now st tid)"
  from Cons.prems have snk: "sink (current_state fw fh obj)" by simp
  have g: "letter_gate cfg fw fh sink now st obj = Inr (if emits cfg fw fh now st obj then [cur] else [], st1)"
    using letter_gate_eq[of fw fh sink obj cfg now st] assms(1,2) snk
    by (simp add: Let_def tid_def cur_def st1_def)
  have off: "first_detection_time st1 t = first_detection_time st t \<and>
             last_sent_time st1 t = last_sent_time st t \<and> last_sent_state st1 t = last_sent_state st t"
    if "t \<noteq> tid" for t
    using that by (simp add: st1_def rfd_first)
  have at: "last_sent_time st1 tid = (if emits cfg fw fh now st obj then Some now else last_sent_time st tid)"
    "last_sent_state st1 tid = (if emits cfg fw fh now st obj then Some cur else last_sent_state st tid)"
    by (simp_all add: st1_def)
  from Cons.prems have d: "distinct (map track_id_of objs)" and nin: "tid \<notin> track_id_of ` set objs"
    and snks: "\<forall>obj\<in>set objs. sink (current_state fw fh obj)"
    by (simp_all add: tid_def)
  from Cons.IH[OF d snks, of st1] obtain st' where
    run: "send_letter_detection_results cfg fw fh sink now st1 objs =
            Inr (map (current_state fw fh) (filter (emits cfg fw fh now st1) objs), st')"
    and own: "\<forall>obj\<in>set objs.
             last_sent_time st' (track_id_of obj) =
               (if emits cfg fw fh now st1 obj then Some now else last_sent_time st1 (track_id_of obj)) \<and>
             last_sent_state st' (track_id_of obj) =
               (if emits cfg fw fh now st1 obj then Some (current_state fw fh obj)
                else last_sent_state st1 (track_id_of obj))"
    and rest: "\<forall>t. t \<notin> track_id_of ` set objs \<longrightarrow>
             first_detection_time st' t = first_detection_time st1 t \<and>
             last_sent_time st' t = last_sent_time st1 t \<and>
             last_sent_state st' t = last_sent_state st1 t"
    by blast
  have same: "emits cfg fw fh now st1 o' = emits cfg fw fh now st o'" if "o' \<in> set objs" for o'
  proof -
    from that nin have "track_id_of o' \<noteq> tid" by blast
    from off[OF this] show ?thesis by (intro emits_local) simp_all
  qed
  then have flt: "filter (emits cfg fw fh now st1) objs = filter (emits cfg fw fh now st) objs"
    by (intro filter_cong) simp_all
  have r: "send_letter_detection_results cfg fw fh sink now st (obj # objs) =
            Inr (map (current_state fw fh) (filter (emits cfg fw fh now st) (obj # objs)), st')"
    by (simp add: g run flt cur_def)
  have o1: "last_sent_time st' (track_id_of o') =
               (if emits cfg fw fh now st o' then Some now else last_sent_time st (track_id_of o')) \<and>
            last_sent_state st' (track_id_of o') =
               (if emits cfg fw fh now st o' then Some (current_state fw fh o')
                else last_sent_state st (track_id_of o'))"
    if "o' \<in> set (obj # objs)" for o'
  proof (cases "o' \<in> set objs")
    case True
    with nin have "track_id_of o' \<noteq> tid" by blast
    from off[OF this] own[rule_format, OF True] same[OF True] show ?thesis by simp
  next
    case False
    with that have "o' = obj" by simp
    with rest[rule_format, OF nin] at show ?thesis by (simp add: tid_def cur_def)
  qed
  have o2: "first_detection_time st' t = first_detection_time st t \<and>
             last_sent_time st' t = last_sent_time st t \<and> last_sent_state st' t = last_sent_state st t"
    if "t \<notin> track_id_of ` set (obj # objs)" for t
  proof -
    from that have "t \<noteq> tid" "t \<notin> track_id_of ` set objs" by (simp_all add: tid_def)
    with off[of t] rest show ?thesis by simp
  qed
  from r o1 o2 show ?case by blast
qed

lemma send_single:
  "send_letter_detection_results cfg fw fh sink now st [obj] = letter_gate cfg fw fh sink now st obj"
  by (simp split: sum.splits)

lemma gate_sent_one: "letter_gate cfg fw fh sink now st obj = Inr (sent, st') \<Longrightarrow> length sent \<le> 1"
  by (auto simp: letter_gate_def Let_def split: if_splits)

lemma gate_sent_last:
  "letter_gate cfg fw fh sink now st obj = Inr (sent, st') \<Longrightarrow> sent \<noteq> [] \<Longrightarrow>
   last_sent_time st' (track_id_of obj) = Some now"
  by (auto simp: letter_gate_def Let_def split: if_splits)

lemma gate_cooldown_blocks:
  assumes "letter_gate cfg fw fh sink now st obj = Inr (sent, st')"
    and "last_sent_time st (track_id_of obj) = Some t" and "float_sub now t < RESEND_COOLDOWN cfg"
  shows "sent = []"
  using assms
  by (auto simp: letter_gate_def Let_def rfd_preds is_first_detection_def cooldown_passed_def split: if_splits)

text \<open>In double arithmetic \<open>3.0 - 0.0\<close> is 3.\<close>

lemma three_seconds: "float_sub 3 0 = 3"
  by code_simp

lemma gate_debounce:
  assumes "RESEND_COOLDOWN cfg = 5" and "track_id_of obj2 = track_id_of obj1"
    and "send_letter_detection_results cfg fw fh sink 0 st [obj1] = Inr (sent1, st1)"
    and "send_letter_detection_results cfg fw fh sink 3 st1 [obj2] = Inr (sent2, st2)"
  shows "length sent1 + length sent2 \<le> 1"
proof (cases "sent1 = []")
  case True
  with gate_sent_one[OF assms(4)[unfolded send_single]] show ?thesis by simp
next
  case False
  from gate_sent_last[OF assms(3)[unfolded send_single] False] assms(2)
  have "last_sent_time st1 (track_id_of obj2) = Some 0" by simp
  from gate_cooldown_blocks[OF assms(4)[unfolded send_single] this] assms(1) three_seconds
  have "sent2 = []" by simp
  with gate_sent_one[OF assms(3)[unfolded send_single]] show ?thesis by simp
qed

text \<open>
  C2, as amended. On a frame of non-zero size, for tracked objects of distinct tracks
  whose sends return, \<open>send_letter_detection_results\<close> sends the state of exactly those
  objects that pass the stability filter and for which the track was never sent, or the
  cooldown has passed and either \<open>SEND_ONLY_CHANGES\<close> is off or the state changed. The
  time since the last send and the change of a component are computed in double
  arithmetic: the state changed when the class differs or the double
  \<open>abs(last - current)\<close> of some component exceeds the double \<open>0.01\<close>. On a send the
  last-sent time and state of the track become the current ones, otherwise they stay,
  and no other track is touched. With a cooldown of 5 seconds, two evaluations for the
  same track at times 0 and 3 send at most one message.
\<close>

theorem gate_emit_rule:
  assumes "fw \<noteq> 0" "fh \<noteq> 0" and "distinct (map track_id_of objs)"
    and "\<forall>obj\<in>set objs. sink (current_state fw fh obj)"
  shows "(\<exists>st'. send_letter_detection_results cfg fw fh sink now st objs =
            Inr (map (current_state fw fh) (filter (emits cfg fw fh now st) objs), st') \<and>
          (\<forall>obj\<in>set objs.
             last_sent_time st' (track_id_of obj) =
               (if emits cfg fw fh now st obj then Some now else last_sent_time st (track_id_of obj)) \<and>
             last_sent_state st' (track_id_of obj) =
               (if emits cfg fw fh now st obj then Some (current_state fw fh obj)
                else last_sent_state st (track_id_of obj))) \<and>
          (\<forall>tid. tid \<notin> track_id_of ` set objs \<longrightarrow>
             first_detection_time st' tid = first_detection_time st tid \<and>
             last_sent_time st' tid = last_sent_time st tid \<and>
             last_sent_state st' tid = last_sent_state st tid)) \<and>
    (\<forall>obj\<in>set objs. passes_stability_filter cfg now st obj \<longrightarrow>
       (emits cfg fw fh now st obj \<longleftrightarrow>
          spec_is_first st (track_id_of obj) \<or>
          (spec_cooldown_passed (RESEND_COOLDOWN cfg) now st (track_id_of obj) \<and>
           (\<not> SEND_ONLY_CHANGES cfg \<or> spec_state_changed st (track_id_of obj) (current_state fw fh obj))))) \<and>
    (\<forall>st0 obj1 obj2 sent1 st1 sent2 st2.
       RESEND_COOLDOWN cfg = 5 \<and> track_id_of obj2 = track_id_of obj1 \<and>
       send_letter_detection_results cfg fw fh sink 0 st0 [obj1] = Inr (sent1, st1) \<and>
       send_letter_detection_results cfg fw fh sink 3 st1 [obj2] = Inr (sent2, st2) \<longrightarrow>
       length sent1 + length sent2 \<le> 1)"
proof (intro conjI)
  show "\<exists>st'. send_letter_detection_results cfg fw fh sink now st objs =
            Inr (map (current_state fw fh) (filter (emits cfg fw fh now st) objs), st') \<and>
          (\<forall>obj\<in>set objs.
             last_sent_time st' (track_id_of obj) =
               (if emits cfg fw fh now st obj then Some now else last_sent_time st (track_id_of obj)) \<and>
             last_sent_state st' (track_id_of obj) =
               (if emits cfg fw fh now st obj then Some (current_state fw fh obj)
                else last_sent_state st (track_id_of obj))) \<and>
          (\<forall>tid. tid \<notin> track_id_of ` set objs \<longrightarrow>
             first_detection_time st' tid = first_detection_time st tid \<and>
             last_sent_time st' tid = last_sent_time st tid \<and>
             last_sent_state st' tid = last_sent_state st tid)"
    using assms by (rule gate_run)
next
  show "\<forall>obj\<in>set objs. passes_stability_filter cfg now st obj \<longrightarrow>
       (emits cfg fw fh now st obj \<longleftrightarrow>
          spec_is_first st (track_id_of obj) \<or>
          (spec_cooldown_passed (RESEND_COOLDOWN cfg) now st (track_id_of obj) \<and>
           (\<not> SEND_ONLY_CHANGES cfg \<or> spec_state_changed st (track_id_of obj) (current_state fw fh obj))))"
    by (simp add: emits_def spec_emit_def)
next
  show "\<forall>st0 obj1 obj2 sent1 st1 sent2 st2.
       RESEND_COOLDOWN cfg = 5 \<and> track_id_of obj2 = track_id_of obj1 \<and>
       send_letter_detection_results cfg fw fh sink 0 st0 [obj1] = Inr (sent1, st1) \<and>
       send_letter_detection_results cfg fw fh sink 3 st1 [obj2] = Inr (sent2, st2) \<longrightarrow>
       length sent1 + length sent2 \<le> 1"
    using gate_debounce[of cfg _ _ fw fh sink] by blast
qed

subsection \<open>A frame of 800 by 600\<close>

text \<open>The double arithmetic of the examples.\<close>

lemma double_values:
  "float_of_int 280 = 280" "float_of_int 276 = 276" "float_of_int 150 = 150" "float_of_int 0 = 0"
  "float_of_int 800 = 800" "float_of_int 600 = 600"
  "int_truediv 240 2 = 120" "int_truediv 248 2 = 124" "int_truediv 300 2 = 150" "int_truediv 400 2 = 200"
  "int_truediv 300 600 = 1 / 2" "int_truediv 400 800 = 1 / 2"
  "int_truediv 240 800 = round_double (3 / 10)" "int_truediv 248 800 = round_double (31 / 100)"
  "float_add 280 120 = 400" "float_add 276 124 = 400" "float_add 150 150 = 300"
  "float_add 0 200 = 200" "float_add 0 150 = 150"
  "float_div 400 800 = 1 / 2" "float_div 300 600 = 1 / 2" "float_div 200 800 = 1 / 4" "float_div 150 600 = 1 / 4"
  "float_sub 1 (1 / 2) = 1 / 2" "float_sub 1 (1 / 4) = 3 / 4" "float_sub (1 / 2) (1 / 2) = 0"
  "float_sub 0 (- 1) = 1" "float_sub 3 (- 1) = 4" "float_sub 10 (- 1) = 11"
  "float_sub 0 0 = 0" "float_sub 10 0 = 10"
  "round_double (1 / 2) = 1 / 2" "round_double 5 = 5"
  by code_simp+

lemma double_bounds:
  "round_double (7 / 20) = 3152519739159347 / 2 ^ 53" "0 < round_double (1 / 100)"
  "\<bar>float_sub (round_double (3 / 10)) (round_double (31 / 100))\<bar> > round_double (1 / 100)"
  by code_simp+

lemma example_states:
  "current_state 800 600 letter_240 = (0, 1 / 2, 1 / 2, round_double (3 / 10), 1 / 2)"
  "current_state 800 600 letter_248 = (0, 1 / 2, 1 / 2, round_double (31 / 100), 1 / 2)"
  by (simp_all add: current_state_def letter_240_def letter_248_def Let_def double_values)

lemma example_ids:
  "track_id_of letter_240 = 1" "track_id_of letter_248 = 1" "track_id_of letter_new = 2"
  by (simp_all add: track_id_of_def letter_240_def letter_248_def letter_new_def)

lemma example_config:
  "RESEND_COOLDOWN config = 5" "SEND_ONLY_CHANGES config" "SEND_ONLY_STABLE config"
  "STABLE_TIME_THRESHOLD config = 1 / 2" "STABLE_CONF_THRESHOLD config = round_double (35 / 100)"
  by (simp_all add: config_def double_values)

lemma example_emits:
  "emits config 800 600 0 gate_example letter_240"
  "\<not> emits config 800 600 0 gate_example letter_new"
  "\<not> emits config 800 600 3 gate_example_sent letter_248"
  "emits config 800 600 10 gate_example_sent letter_248"
proof -
  show "emits config 800 600 0 gate_example letter_240"
    by (simp add: emits_def passes_stability_filter_def spec_emit_def spec_is_first_def example_ids
        gate_example_def)
       (simp add: is_stable_def letter_240_def example_config double_values double_bounds)
  show "\<not> emits config 800 600 0 gate_example letter_new"
    by (simp add: emits_def passes_stability_filter_def is_stable_def letter_new_def gate_example_def
        example_config double_values)
  show "\<not> emits config 800 600 3 gate_example_sent letter_248"
    by (simp add: emits_def spec_emit_def spec_is_first_def spec_cooldown_passed_def example_ids
        gate_example_sent_def example_config double_values three_seconds)
  have "spec_state_changed gate_example_sent 1 (0, 1 / 2, 1 / 2, round_double (31 / 100), 1 / 2)"
    using double_bounds(3) by (simp add: spec_state_changed_def gate_example_sent_def)
  then show "emits config 800 600 10 gate_example_sent letter_248"
    by (simp add: emits_def passes_stability_filter_def spec_emit_def spec_cooldown_passed_def
        example_ids example_states example_config)
       (simp add: is_stable_def letter_248_def gate_example_sent_def example_config double_values
        double_bounds)
qed

lemma example_first_run:
  "send_letter_detection_results config 800 600 letter_sink 0 gate_example [letter_240] =
     Inr ([(0, 1 / 2, 1 / 2, round_double (3 / 10), 1 / 2)], gate_example_sent)"
proof -
  have "record_first_detection 0 gate_example 1 = gate_example"
    by (simp add: record_first_detection_def gate_example_def)
  moreover have "gate_example\<lparr>last_sent_time := (last_sent_time gate_example)(1 \<mapsto> 0),
      last_sent_state := (last_sent_state gate_example)(1 \<mapsto> (0, 1 / 2, 1 / 2, round_double (3 / 10), 1 / 2))\<rparr>
      = gate_example_sent"
    by (simp add: gate_example_def gate_example_sent_def)
  moreover have "letter_sink (current_state 800 600 letter_240)" by (simp add: letter_sink_def)
  ultimately show ?thesis
    unfolding send_single
    using letter_gate_eq[of 800 600 letter_sink letter_240 config 0 gate_example]
    by (simp add: Let_def example_emits example_states example_ids)
qed

text \<open>
  On a frame of 800 by 600, the letter of track 1, seen for a second, and a letter of the
  new track 2, which is not stable yet: at time 0 one message is sent, for track 1. At
  time 3 the letter of track 1, now eight pixels wider, is held back by the cooldown.
\<close>

theorem gate_emit_rule_witness:
  "(800 :: int) \<noteq> 0 \<and> (600 :: int) \<noteq> 0 \<and>
   map track_id_of [letter_240, letter_new] = [1, 2] \<and>
   letter_sink (current_state 800 600 letter_240) \<and> letter_sink (current_state 800 600 letter_new) \<and>
   letter_sink (current_state 800 600 letter_248) \<and>
   map_sum id fst (send_letter_detection_results config 800 600 letter_sink 0 gate_example [letter_240, letter_new])
     = Inr [(0, 1 / 2, 1 / 2, round_double (3 / 10), 1 / 2)] \<and>
   RESEND_COOLDOWN config = 5 \<and> track_id_of letter_248 = track_id_of letter_240 \<and>
   send_letter_detection_results config 800 600 letter_sink 0 gate_example [letter_240] =
     Inr ([(0, 1 / 2, 1 / 2, round_double (3 / 10), 1 / 2)], gate_example_sent) \<and>
   map_sum id fst (send_letter_detection_results config 800 600 letter_sink 3 gate_example_sent [letter_248])
     = Inr []"
proof -
  have nz: "(800 :: int) \<noteq> 0" "(600 :: int) \<noteq> 0" by simp_all
  have ids: "map track_id_of [letter_240, letter_new] = [1, 2]" by (simp add: example_ids)
  have tid: "track_id_of letter_248 = track_id_of letter_240" by (simp add: example_ids)
  have snk: "letter_sink m" for m by (simp add: letter_sink_def)
  have d2: "distinct (map track_id_of [letter_240, letter_new])" unfolding ids by simp
  have s2: "\<forall>obj\<in>set [letter_240, letter_new]. letter_sink (current_state 800 600 obj)"
    by (simp add: snk)
  have d1: "distinct (map track_id_of [obj])" for obj by simp
  have s1: "\<forall>obj\<in>set [obj']. letter_sink (current_state 800 600 obj)" for obj' by (simp add: snk)
  have flt: "filter (emits config 800 600 0 gate_example) [letter_240, letter_new] = [letter_240]"
    by (simp add: example_emits)
  from gate_emit_rule[where cfg = config and now = 0 and st = gate_example, OF nz d2 s2, THEN conjunct1]
  obtain st' where r2: "send_letter_detection_results config 800 600 letter_sink 0 gate_example
      [letter_240, letter_new] =
      Inr (map (current_state 800 600) (filter (emits config 800 600 0 gate_example) [letter_240, letter_new]), st')"
    by blast
  have a: "map_sum id fst (send_letter_detection_results config 800 600 letter_sink 0 gate_example
             [letter_240, letter_new]) = Inr [(0, 1 / 2, 1 / 2, round_double (3 / 10), 1 / 2)]"
    unfolding r2 flt by (simp add: example_states)
  from gate_emit_rule[where objs = "[letter_248]" and cfg = config and now = 3 and st = gate_example_sent,
      OF nz d1 s1, THEN conjunct1]
  obtain sent2 st2 where r3: "send_letter_detection_results config 800 600 letter_sink 3 gate_example_sent
      [letter_248] = Inr (sent2, st2)" by blast
  note deb = gate_emit_rule[where objs = "[letter_240]" and cfg = config and now = 0 and st = gate_example,
      OF nz d1 s1, THEN conjunct2, THEN conjunct2, rule_format, of letter_248 letter_240 gate_example
      "[(0, 1 / 2, 1 / 2, round_double (3 / 10), 1 / 2)]" gate_example_sent sent2 st2]
  from deb example_config(1) tid example_first_run r3
  have "length [(0 :: int, 1 / 2 :: real, 1 / 2 :: real, round_double (3 / 10), 1 / 2 :: real)] + length sent2 \<le> 1"
    by blast
  then have "sent2 = []" by simp
  with r3 have b: "map_sum id fst (send_letter_detection_results config 800 600 letter_sink 3 gate_example_sent
      [letter_248]) = Inr []" by simp
  from nz ids snk a example_config(1) tid example_first_run b show ?thesis by simp
qed

lemma exact_example_values:
  "exact_state 800 600 letter_240 = (0, 1 / 2, 1 / 2, 3 / 10, 1 / 2)"
  "exact_state 800 600 letter_248 = (0, 1 / 2, 1 / 2, 31 / 100, 1 / 2)"
  "\<not> exact_change (exact_state 800 600 letter_240) (exact_state 800 600 letter_248)"
  by (simp_all add: exact_state_def exact_change_def letter_240_def letter_248_def Let_def)

lemma rounding_example_values:
  "\<bar>float_sub (round_double (3 / 10)) (round_double (31 / 100))\<bar> = 45035996273705 / 2 ^ 52"
  "round_double (1 / 100) = 5764607523034235 / 2 ^ 59"
  by code_simp+

lemma rounding_example_run:
  "map_sum id fst (send_letter_detection_results config 800 600 letter_sink 10 gate_example_sent [letter_248])
     = Inr [(0, 1 / 2, 1 / 2, round_double (31 / 100), 1 / 2)]"
proof -
  have "letter_sink (current_state 800 600 letter_248)" by (simp add: letter_sink_def)
  then show ?thesis
    unfolding send_single
    using letter_gate_eq[of 800 600 letter_sink letter_248 config 10 gate_example_sent]
    by (simp add: Let_def example_emits example_states)
qed

text \<open>
  C2 as stated fails when the change is read in exact arithmetic. Track 1 was sent at
  time 0 with width 240 of 800, that is 0.3; at time 10 its width is 248, that is 0.31,
  and nothing else differs. The change is exactly one hundredth, not more, but in double
  arithmetic \<open>abs(0.3 - 0.31)\<close> is 0.010000000000000009, above the double \<open>0.01\<close>, and
  the gate sends.
\<close>

theorem gate_rounding_counterexample:
  "send_letter_detection_results config 800 600 letter_sink 0 gate_example [letter_240] =
     Inr ([(0, 1 / 2, 1 / 2, round_double (3 / 10), 1 / 2)], gate_example_sent) \<and>
   exact_state 800 600 letter_240 = (0, 1 / 2, 1 / 2, 3 / 10, 1 / 2) \<and>
   exact_state 800 600 letter_248 = (0, 1 / 2, 1 / 2, 31 / 100, 1 / 2) \<and>
   \<not> exact_change (exact_state 800 600 letter_240) (exact_state 800 600 letter_248) \<and>
   SEND_ONLY_CHANGES config \<and> RESEND_COOLDOWN config = 5 \<and>
   \<bar>float_sub (round_double (3 / 10)) (round_double (31 / 100))\<bar> = 45035996273705 / 2 ^ 52 \<and>
   round_double (1 / 100) = 5764607523034235 / 2 ^ 59 \<and>
   map_sum id fst (send_letter_detection_results config 800 600 letter_sink 10 gate_example_sent [letter_248])
     = Inr [(0, 1 / 2, 1 / 2, round_double (31 / 100), 1 / 2)]"
  using example_first_run exact_example_values example_config(1,2) rounding_example_values
    rounding_example_run
  by (intro conjI)

lemma oldest_from_least: "\<forall>e\<in>set (a # bs). timestamp (oldest_from a bs) \<le> timestamp e"
  by (induction a bs rule: oldest_from.induct) (auto simp: not_less)

lemma evict_over_length: "length (evict_over mx bs) \<le> mx"
  by (induction mx bs rule: evict_over.induct) (auto simp del: remove1.simps)

lemma evict_full_length: "evict_full mx bs = Inr cs \<Longrightarrow> length cs < mx"
  by (induction mx bs rule: evict_full.induct) (auto simp del: remove1.simps split: if_splits)

lemma evict_full_Inl: "evict_full mx bs = Inl e \<Longrightarrow> mx = 0"
  by (induction mx bs rule: evict_full.induct) (auto simp del: remove1.simps split: if_splits)

lemma add_box_length: "length (fst (add_box duration mx now box lbl boxes)) \<le> mx"
  by (auto simp: add_box_def split: sum.splits dest: evict_full_length)


lemma evict_over_subset: "set (evict_over mx bs) \<subseteq> set bs"
proof (induction mx bs rule: evict_over.induct)
  case (1 mx)
  then show ?case by simp
next
  case (2 mx a bs)
  show ?case
  proof (cases "length (a # bs) > mx")
    case True
    with 2 have "set (evict_over mx (a # bs)) \<subseteq> set (remove1 (oldest_from a bs) (a # bs))"
      by (simp del: remove1.simps)
    also have "\<dots> \<subseteq> set (a # bs)" by (rule set_remove1_subset)
    finally show ?thesis .
  next
    case False
    then show ?thesis by simp
  qed
qed

lemma evict_full_subset: "evict_full mx bs = Inr cs \<Longrightarrow> set cs \<subseteq> set bs"
proof (induction mx bs arbitrary: cs rule: evict_full.induct)
  case (1 mx)
  then show ?case by (simp split: if_splits)
next
  case (2 mx a bs)
  show ?case
  proof (cases "length (a # bs) \<ge> mx")
    case True
    with 2 have "set cs \<subseteq> set (remove1 (oldest_from a bs) (a # bs))"
      by (simp del: remove1.simps)
    also have "\<dots> \<subseteq> set (a # bs)" by (rule set_remove1_subset)
    finally show ?thesis .
  next
    case False
    with 2 show ?thesis by simp
  qed
qed

lemma gone_after_remove1: "e \<in> set xs \<Longrightarrow> e \<notin> set (remove1 x xs) \<Longrightarrow> e = x"
  by (metis in_set_remove1)

lemma evict_over_oldest_first:
  "k \<in> set (evict_over mx bs) \<Longrightarrow> e \<in> set bs \<Longrightarrow> e \<notin> set (evict_over mx bs) \<Longrightarrow>
   timestamp e \<le> timestamp k"
proof (induction mx bs rule: evict_over.induct)
  case (1 mx)
  then show ?case by simp
next
  case (2 mx a bs)
  let ?o = "oldest_from a bs"
  let ?rest = "remove1 ?o (a # bs)"
  show ?case
  proof (cases "length (a # bs) > mx")
    case True
    then have eq: "evict_over mx (a # bs) = evict_over mx ?rest" by (simp del: remove1.simps)
    show ?thesis
    proof (cases "e \<in> set ?rest")
      case True
      with 2 eq \<open>length (a # bs) > mx\<close> show ?thesis by (simp del: remove1.simps)
    next
      case False
      with "2.prems"(2) have "e = ?o" by (rule gone_after_remove1)
      moreover have "k \<in> set (a # bs)"
        using "2.prems"(1) evict_over_subset by blast
      ultimately show ?thesis using oldest_from_least[of a bs] by blast
    qed
  next
    case False
    with "2.prems" show ?thesis by simp
  qed
qed

lemma evict_full_oldest_first:
  "evict_full mx bs = Inr cs \<Longrightarrow> k \<in> set cs \<Longrightarrow> e \<in> set bs \<Longrightarrow> e \<notin> set cs \<Longrightarrow>
   timestamp e \<le> timestamp k"
proof (induction mx bs arbitrary: cs rule: evict_full.induct)
  case (1 mx)
  then show ?case by simp
next
  case (2 mx a bs)
  let ?o = "oldest_from a bs"
  let ?rest = "remove1 ?o (a # bs)"
  show ?case
  proof (cases "length (a # bs) \<ge> mx")
    case True
    with "2.prems"(1) have eq: "evict_full mx ?rest = Inr cs" by (simp del: remove1.simps)
    show ?thesis
    proof (cases "e \<in> set ?rest")
      case True
      with "2.IH"[OF \<open>length (a # bs) \<ge> mx\<close> eq "2.prems"(2)] "2.prems"(4) show ?thesis by blast
    next
      case False
      with "2.prems"(3) have "e = ?o" by (rule gone_after_remove1)
      moreover have "k \<in> set (a # bs)"
        using "2.prems"(1,2) evict_full_subset by blast
      ultimately show ?thesis using oldest_from_least[of a bs] by blast
    qed
  next
    case False
    with "2.prems" show ?thesis by auto
  qed
qed

lemma seventh_insertion:
  assumes "length bs = 5" and "\<forall>e\<in>set (a # bs). unexpired duration now e"
  shows "add_box duration 6 now box lbl (a # bs) =
           (remove1 (oldest_from a bs) (a # bs) @ [(box, lbl, now)], None)"
proof -
  let ?rest = "remove1 (oldest_from a bs) (a # bs)"
  have f: "filter (unexpired duration now) (a # bs) = a # bs"
    using assms(2) by (intro filter_True) 
  have len: "length ?rest = 5"
    using oldest_from_mem[of a bs] assms(1) by (simp add: length_remove1 del: remove1.simps)
  have "evict_full 6 (a # bs) = evict_full 6 ?rest"
    using assms(1) by (simp del: remove1.simps)
  also have "\<dots> = Inr ?rest"
    using len by (cases ?rest) (simp_all del: remove1.simps)
  finally show ?thesis
    unfolding add_box_def f by (simp del: remove1.simps)
qed

text \<open>
  C6. After a read (\<open>get_current_boxes\<close>) and after an insertion (the critical section
  of \<open>api_call_thread\<close>) the list holds at most \<open>max_onscreen\<close> entries. What capacity
  eviction removed is never younger than what it kept. Inserting into a list of
  \<open>VISION_API_MAX_ONSCREEN\<close> unexpired entries removes the first entry of least
  timestamp and appends the new one, so six entries remain.
\<close>

theorem cache_capacity_invariant:
  "length (get_current_boxes duration mx now boxes) \<le> mx \<and>
   length (fst (add_box duration mx now box lbl boxes)) \<le> mx \<and>
   (\<forall>k\<in>set (get_current_boxes duration mx now boxes). \<forall>e\<in>set boxes.
      unexpired duration now e \<and> e \<notin> set (get_current_boxes duration mx now boxes) \<longrightarrow>
      timestamp e \<le> timestamp k) \<and>
   (\<forall>k\<in>set (butlast (fst (add_box duration mx now box lbl boxes))). \<forall>e\<in>set boxes.
      unexpired duration now e \<and> e \<notin> set (butlast (fst (add_box duration mx now box lbl boxes))) \<longrightarrow>
      timestamp e \<le> timestamp k) \<and>
   (\<forall>a bs. Suc (length bs) = VISION_API_MAX_ONSCREEN \<and> (\<forall>e\<in>set (a # bs). unexpired duration now e) \<longrightarrow>
      add_box duration VISION_API_MAX_ONSCREEN now box lbl (a # bs) =
        (remove1 (oldest_from a bs) (a # bs) @ [(box, lbl, now)], None) \<and>
      length (fst (add_box duration VISION_API_MAX_ONSCREEN now box lbl (a # bs))) = 6 \<and>
      oldest_from a bs \<in> set (a # bs) \<and>
      (\<forall>e\<in>set (a # bs). timestamp (oldest_from a bs) \<le> timestamp e))"
proof (intro conjI allI impI ballI)
  show "length (get_current_boxes duration mx now boxes) \<le> mx"
    by (simp add: get_current_boxes_def evict_over_length)
  show "length (fst (add_box duration mx now box lbl boxes)) \<le> mx"
    by (rule add_box_length)
next
  fix k e
  assume k: "k \<in> set (get_current_boxes duration mx now boxes)" and e: "e \<in> set boxes"
    and u: "unexpired duration now e \<and> e \<notin> set (get_current_boxes duration mx now boxes)"
  from e u have "e \<in> set (filter (unexpired duration now) boxes)" by simp
  with k u show "timestamp e \<le> timestamp k"
    using evict_over_oldest_first[of k mx "filter (unexpired duration now) boxes" e]
    unfolding get_current_boxes_def by blast
next
  fix k e
  let ?kept = "butlast (fst (add_box duration mx now box lbl boxes))"
  assume k: "k \<in> set ?kept" and e: "e \<in> set boxes"
    and u: "unexpired duration now e \<and> e \<notin> set ?kept"
  from e u have e': "e \<in> set (filter (unexpired duration now) boxes)" by simp
  show "timestamp e \<le> timestamp k"
  proof (cases "evict_full mx (filter (unexpired duration now) boxes)")
    case (Inl x)
    with k show ?thesis by (simp add: add_box_def)
  next
    case (Inr cs)
    then have "?kept = cs" by (simp add: add_box_def)
    with evict_full_oldest_first[OF Inr _ e'] k u show ?thesis by simp
  qed
next
  fix a bs
  assume h: "Suc (length bs) = VISION_API_MAX_ONSCREEN \<and> (\<forall>e\<in>set (a # bs). unexpired duration now e)"
  then have l: "length bs = 5" by (simp add: VISION_API_MAX_ONSCREEN_def)
  from seventh_insertion[OF l, of a duration now box lbl] h
  show eq: "add_box duration VISION_API_MAX_ONSCREEN now box lbl (a # bs) =
        (remove1 (oldest_from a bs) (a # bs) @ [(box, lbl, now)], None)"
    by (simp add: VISION_API_MAX_ONSCREEN_def)
  have "length (remove1 (oldest_from a bs) (a # bs)) = 5"
    using oldest_from_mem[of a bs] l by (simp add: length_remove1 del: remove1.simps)
  with eq show "length (fst (add_box duration VISION_API_MAX_ONSCREEN now box lbl (a # bs))) = 6"
    by (simp del: remove1.simps)
  show "oldest_from a bs \<in> set (a # bs)" by (rule oldest_from_mem)
  fix e assume "e \<in> set (a # bs)"
  then show "timestamp (oldest_from a bs) \<le> timestamp e" using oldest_from_least by blast
qed

text \<open>
  Six boxes created at times 3, 1, 2, 4, 5, 6 and a seventh inserted at time 6: the box
  of time 1 goes, the other five and the new one remain.
\<close>

theorem cache_capacity_invariant_witness:
  "Suc (length (tl six_boxes)) = VISION_API_MAX_ONSCREEN \<and>
   list_all (unexpired VISION_API_BOX_DURATION 6) six_boxes \<and>
   add_box VISION_API_BOX_DURATION VISION_API_MAX_ONSCREEN 6 (7, 7, 8, 8) ''g'' six_boxes =
     ([((0, 0, 1, 1), ''a'', 3), ((2, 2, 3, 3), ''c'', 2), ((3, 3, 4, 4), ''d'', 4),
       ((4, 4, 5, 5), ''e'', 5), ((5, 5, 6, 6), ''f'', 6), ((7, 7, 8, 8), ''g'', 6)], None) \<and>
   length (get_current_boxes VISION_API_BOX_DURATION VISION_API_MAX_ONSCREEN 6 six_boxes) \<le> 6"
proof -
  have l: "Suc (length (tl six_boxes)) = VISION_API_MAX_ONSCREEN"
    by (simp add: six_boxes_def VISION_API_MAX_ONSCREEN_def)
  have u: "list_all (unexpired VISION_API_BOX_DURATION 6) six_boxes"
    by (simp add: six_boxes_def unexpired_def timestamp_def VISION_API_BOX_DURATION_def)
  have sb: "six_boxes = hd six_boxes # tl six_boxes" by (simp add: six_boxes_def)
  have u': "\<forall>e\<in>set (hd six_boxes # tl six_boxes). unexpired VISION_API_BOX_DURATION 6 e"
    using u sb by (simp add: list_all_iff)
  have o: "remove1 (oldest_from (hd six_boxes) (tl six_boxes)) (hd six_boxes # tl six_boxes) =
      [((0, 0, 1, 1), ''a'', 3), ((2, 2, 3, 3), ''c'', 2), ((3, 3, 4, 4), ''d'', 4),
       ((4, 4, 5, 5), ''e'', 5), ((5, 5, 6, 6), ''f'', 6)]"
    by (simp add: six_boxes_def timestamp_def)
  have "add_box VISION_API_BOX_DURATION VISION_API_MAX_ONSCREEN 6 (7, 7, 8, 8) ''g''
          (hd six_boxes # tl six_boxes) =
        (remove1 (oldest_from (hd six_boxes) (tl six_boxes)) (hd six_boxes # tl six_boxes) @
           [((7, 7, 8, 8), ''g'', 6)], None)"
    using cache_capacity_invariant[of VISION_API_BOX_DURATION VISION_API_MAX_ONSCREEN 6 six_boxes
      "(7, 7, 8, 8)" "''g''"] l u' by blast
  then have a: "add_box VISION_API_BOX_DURATION VISION_API_MAX_ONSCREEN 6 (7, 7, 8, 8) ''g'' six_boxes =
     ([((0, 0, 1, 1), ''a'', 3), ((2, 2, 3, 3), ''c'', 2), ((3, 3, 4, 4), ''d'', 4),
       ((4, 4, 5, 5), ''e'', 5), ((5, 5, 6, 6), ''f'', 6), ((7, 7, 8, 8), ''g'', 6)], None)"
    unfolding o using sb by simp
  have g: "length (get_current_boxes VISION_API_BOX_DURATION VISION_API_MAX_ONSCREEN 6 six_boxes) \<le> 6"
    using cache_capacity_invariant[of VISION_API_BOX_DURATION VISION_API_MAX_ONSCREEN 6 six_boxes
      "(7, 7, 8, 8)" "''g''"] by (simp add: VISION_API_MAX_ONSCREEN_def)
  from l u a g show ?thesis by simp
qed

section \<open>One call of the SideScreen \<open>update\<close>\<close>

lemma map_of_age_track:
  "map_of (age_track mx k trks) k' =
     (if k' = k then (case map_of trks k of None \<Rightarrow> None | Some t \<Rightarrow> aged mx t) else map_of trks k')"
  by (simp add: age_track_def aged_def AList.update_conv' AList.delete_conv' split: option.splits)

lemma keys_age_track: "set (map fst (age_track mx k trks)) \<subseteq> set (map fst trks)"
proof (cases "map_of trks k")
  case None
  then show ?thesis by (simp add: age_track_def)
next
  case (Some t)
  then have "k \<in> fst ` set trks" by (metis map_of_eq_None_iff option.distinct(1))
  with Some show ?thesis
    using AList.dom_delete_subset[of k trks] AList.dom_update[of k _ trks]
    by (auto simp: age_track_def)
qed

lemma distinct_age_track: "distinct (map fst trks) \<Longrightarrow> distinct (map fst (age_track mx k trks))"
  by (simp add: age_track_def AList.distinct_update AList.distinct_delete split: option.splits)

lemma best_track_Some:
  "best_track used row t0 mi b = Some j \<Longrightarrow>
   b = Some j \<or> (t0 \<le> j \<and> j < t0 + length row \<and> j \<notin> set used)"
proof (induction row arbitrary: t0 mi b)
  case Nil
  then show ?case by simp
next
  case (Cons v row)
  show ?case
  proof (cases "t0 \<in> set used")
    case True
    with Cons.prems have "best_track used row (Suc t0) mi b = Some j" by simp
    from Cons.IH[OF this] show ?thesis by auto
  next
    case False
    show ?thesis
    proof (cases "v > mi")
      case True
      with False Cons.prems have "best_track used row (Suc t0) v (Some t0) = Some j" by simp
      from Cons.IH[OF this] False show ?thesis by auto
    next
      case F: False
      with False Cons.prems have "best_track used row (Suc t0) mi b = Some j" by simp
      from Cons.IH[OF this] show ?thesis by auto
    qed
  qed
qed

lemma age_loop_map_of:
  "distinct (map snd pairs) \<Longrightarrow>
   map_of (age_loop mx matched pairs trks) k =
     (if (\<exists>j. (j, k) \<in> set pairs \<and> j \<notin> set matched)
      then (case map_of trks k of None \<Rightarrow> None | Some t \<Rightarrow> aged mx t)
      else map_of trks k)"
proof (induction pairs arbitrary: trks)
  case Nil
  then show ?case by simp
next
  case (Cons p pairs)
  obtain j0 k0 where p: "p = (j0, k0)" by (cases p)
  from Cons.prems p have d: "distinct (map snd pairs)" and n: "k0 \<notin> snd ` set pairs" by auto
  show ?case
  proof (cases "j0 \<in> set matched")
    case True
    with Cons.IH[OF d, of trks] p n show ?thesis by force
  next
    case False
    have "map_of (age_loop mx matched (p # pairs) trks) k =
          map_of (age_loop mx matched pairs (age_track mx k0 trks)) k"
      using False p by simp
    also have "\<dots> = (if (\<exists>j. (j, k) \<in> set pairs \<and> j \<notin> set matched)
      then (case map_of (age_track mx k0 trks) k of None \<Rightarrow> None | Some t \<Rightarrow> aged mx t)
      else map_of (age_track mx k0 trks) k)"
      by (rule Cons.IH[OF d])
    finally show ?thesis using n p False
      by (force simp: map_of_age_track)
  qed
qed

lemma age_loop_keys: "set (map fst (age_loop mx matched pairs trks)) \<subseteq> set (map fst trks)"
proof (induction pairs arbitrary: trks)
  case Nil
  then show ?case by simp
next
  case (Cons p pairs)
  obtain j0 k0 where p: "p = (j0, k0)" by (cases p)
  show ?case
  proof (cases "j0 \<in> set matched")
    case True
    then show ?thesis using Cons.IH[of trks] p by simp
  next
    case False
    then have "set (map fst (age_loop mx matched (p # pairs) trks)) =
               set (map fst (age_loop mx matched pairs (age_track mx k0 trks)))"
      using p by simp
    also have "\<dots> \<subseteq> set (map fst (age_track mx k0 trks))" by (rule Cons.IH)
    also have "\<dots> \<subseteq> set (map fst trks)" by (rule keys_age_track)
    finally show ?thesis .
  qed
qed

lemma age_loop_distinct:
  "distinct (map fst trks) \<Longrightarrow> distinct (map fst (age_loop mx matched pairs trks))"
proof (induction pairs arbitrary: trks)
  case Nil
  then show ?case by simp
next
  case (Cons p pairs)
  obtain j0 k0 where p: "p = (j0, k0)" by (cases p)
  show ?case using Cons p by (simp add: distinct_age_track)
qed

lemma fold_age_track_as_loop:
  "fold (age_track mx) ks trks = age_loop mx [] (zip [n..<n + length ks] ks) trks"
proof (induction ks arbitrary: trks n)
  case Nil
  then show ?case by simp
next
  case (Cons k ks)
  have "[n..<n + length (k # ks)] = n # [Suc n..<Suc n + length ks]"
    by (subst upt_rec) simp
  then show ?case using Cons[of "age_track mx k trks" "Suc n"] by simp
qed

lemma track_id_of_tracked [simp]: "track_id_of (tracked det k cls cf) = k"
  by (cases det) (simp add: tracked_def track_id_of_def)

lemma match_detection_inv:
  assumes inv: "match_inv track_ids trks0 hist0 n0 u" and len: "length row = length track_ids"
  shows "match_inv track_ids trks0 hist0 n0 (match_detection thr now track_ids d_idx d row u)"
proof -
  obtain det cls cf where d: "d = (det, cls, cf)" by (cases d)
  show ?thesis
  proof (cases "best_track (tracked_tracks u) row 0 thr None")
    case None
    with inv d show ?thesis by (simp add: match_detection_def)
  next
    case (Some j)
    from best_track_Some[OF Some] len have j: "j < length track_ids" by simp
    let ?k = "track_ids ! j"
    let ?t = "\<lparr>bbox = det, missed_count = 0, class_id = cls, conf = cf\<rparr>"
    let ?old = "(case u_history u ?k of None \<Rightarrow> [] | Some h \<Rightarrow> h)"
    let ?e = "\<lparr>h_bbox = det, h_time = now, h_class_id = cls, h_conf = cf\<rparr>"
    let ?u = "u\<lparr>u_tracks := AList.update ?k ?t (u_tracks u),
                u_history := (u_history u)(?k \<mapsto> limit_history (?old @ [?e])),
                u_result := u_result u @ [tracked det ?k cls cf],
                tracked_dets := tracked_dets u @ [d_idx],
                tracked_tracks := tracked_tracks u @ [j]\<rparr>"
    have eq: "match_detection thr now track_ids d_idx d row u = ?u"
      using Some d by (simp add: match_detection_def Let_def)
    from inv have keys: "map fst (u_tracks u) = track_ids" by (simp add: match_inv_def)
    have "?k \<in> set track_ids" using j by simp
    then have k1: "map fst (AList.update ?k ?t (u_tracks u)) = track_ids"
      using keys by (simp add: AList.update_keys)
    have k2: "\<forall>i\<in>set (tracked_tracks ?u). i < length track_ids"
      using inv j by (auto simp: match_inv_def)
    have k3: "map track_id_of (u_result ?u) = map ((!) track_ids) (tracked_tracks ?u)"
      using inv by (simp add: match_inv_def)
    have k4: "u_next_id ?u = n0" using inv by (simp add: match_inv_def)
    have k5: "\<forall>k. k \<notin> (!) track_ids ` set (tracked_tracks ?u) \<longrightarrow>
           map_of (u_tracks ?u) k = map_of trks0 k \<and> u_history ?u k = hist0 k"
      using inv by (auto simp: match_inv_def AList.update_conv')
    have k6: "\<forall>k\<in>(!) track_ids ` set (tracked_tracks ?u).
           (\<exists>t. map_of (u_tracks ?u) k = Some t \<and> missed_count t = 0) \<and>
           (\<exists>h. u_history ?u k = Some h \<and> h \<noteq> [])"
      using inv by (auto simp: match_inv_def AList.update_conv' limit_history_def)
    show ?thesis unfolding eq match_inv_def using k1 k2 k3 k4 k5 k6 by simp
  qed
qed

lemma match_loop_inv:
  assumes "match_inv track_ids trks0 hist0 n0 u"
    and "\<forall>x\<in>set xs. length (snd (snd x)) = length track_ids"
  shows "match_inv track_ids trks0 hist0 n0 (match_loop thr now track_ids xs u)"
  using assms
proof (induction xs arbitrary: u)
  case Nil
  then show ?case by simp
next
  case (Cons x xs)
  obtain d_idx d row where x: "x = (d_idx, d, row)" by (cases x)
  with Cons.prems have "length row = length track_ids" by simp
  from match_detection_inv[OF Cons.prems(1) this]
  have "match_inv track_ids trks0 hist0 n0 (match_detection thr now track_ids d_idx d row u)" .
  from Cons.IH[OF this] Cons.prems(2) x show ?case by simp
qed

lemma extends_refl: "extends u u"
  by (auto simp: extends_def)

lemma extends_trans:
  assumes a: "extends u u'" and b: "extends u' u''"
  shows "extends u u''"
proof -
  from a have a1: "u_next_id u \<le> u_next_id u'"
    and a2: "\<And>k. k < u_next_id u \<Longrightarrow>
               map_of (u_tracks u') k = map_of (u_tracks u) k \<and> u_history u' k = u_history u k"
    and a3: "\<And>k. u_next_id u \<le> k \<Longrightarrow> k < u_next_id u' \<Longrightarrow>
               (\<exists>t. map_of (u_tracks u') k = Some t \<and> missed_count t = 0) \<and>
               (\<exists>h. u_history u' k = Some h \<and> h \<noteq> [])"
    and a4: "set (map track_id_of (u_result u')) =
               set (map track_id_of (u_result u)) \<union> {u_next_id u..<u_next_id u'}"
    and a5: "tracked_tracks u' = tracked_tracks u"
    by (simp_all add: extends_def)
  from b have b1: "u_next_id u' \<le> u_next_id u''"
    and b2: "\<And>k. k < u_next_id u' \<Longrightarrow>
               map_of (u_tracks u'') k = map_of (u_tracks u') k \<and> u_history u'' k = u_history u' k"
    and b3: "\<And>k. u_next_id u' \<le> k \<Longrightarrow> k < u_next_id u'' \<Longrightarrow>
               (\<exists>t. map_of (u_tracks u'') k = Some t \<and> missed_count t = 0) \<and>
               (\<exists>h. u_history u'' k = Some h \<and> h \<noteq> [])"
    and b4: "set (map track_id_of (u_result u'')) =
               set (map track_id_of (u_result u')) \<union> {u_next_id u'..<u_next_id u''}"
    and b5: "tracked_tracks u'' = tracked_tracks u'"
    by (simp_all add: extends_def)
  have c1: "u_next_id u \<le> u_next_id u''" using a1 b1 by linarith
  have c2: "map_of (u_tracks u'') k = map_of (u_tracks u) k \<and> u_history u'' k = u_history u k"
    if "k < u_next_id u" for k
  proof -
    from that a1 have "k < u_next_id u'" by linarith
    from b2[OF this] a2[OF that] show ?thesis by simp
  qed
  have c3: "(\<exists>t. map_of (u_tracks u'') k = Some t \<and> missed_count t = 0) \<and>
            (\<exists>h. u_history u'' k = Some h \<and> h \<noteq> [])"
    if "u_next_id u \<le> k" "k < u_next_id u''" for k
  proof (cases "k < u_next_id u'")
    case True
    from a3[OF that(1) True] b2[OF True] show ?thesis by simp
  next
    case False
    then have "u_next_id u' \<le> k" by simp
    from b3[OF this that(2)] show ?thesis .
  qed
  have "{u_next_id u..<u_next_id u''} = {u_next_id u..<u_next_id u'} \<union> {u_next_id u'..<u_next_id u''}"
    using a1 b1 by auto
  with a4 b4 have c4: "set (map track_id_of (u_result u'')) =
               set (map track_id_of (u_result u)) \<union> {u_next_id u..<u_next_id u''}"
    by auto
  have c5: "tracked_tracks u'' = tracked_tracks u" using a5 b5 by simp
  show ?thesis unfolding extends_def using c1 c2 c3 c4 c5 by blast
qed

lemma new_track_extends:
  assumes "keys_below u"
  shows "keys_below (new_track now d_idx d u) \<and> extends u (new_track now d_idx d u)"
proof -
  obtain det cls cf where d: "d = (det, cls, cf)" by (cases d)
  show ?thesis
  proof (cases "d_idx \<in> set (tracked_dets u)")
    case True
    with assms d show ?thesis by (simp add: new_track_def extends_refl)
  next
    case False
    let ?n = "u_next_id u"
    let ?t = "\<lparr>bbox = det, missed_count = 0, class_id = cls, conf = cf\<rparr>"
    let ?u = "u\<lparr>u_next_id := ?n + 1,
                u_tracks := AList.update ?n ?t (u_tracks u),
                u_history := (u_history u)(?n \<mapsto> [\<lparr>h_bbox = det, h_time = now, h_class_id = cls, h_conf = cf\<rparr>]),
                u_result := u_result u @ [tracked det ?n cls cf]\<rparr>"
    have eq: "new_track now d_idx d u = ?u" using False d by (simp add: new_track_def Let_def)
    have kb: "keys_below ?u"
      using assms AList.dom_update[of ?n ?t "u_tracks u"]
      by (auto simp: keys_below_def AList.distinct_update less_Suc_eq)
    have ex: "extends u ?u"
      by (auto simp: extends_def AList.update_conv' less_Suc_eq)
    show ?thesis unfolding eq using kb ex by simp
  qed
qed

lemma new_loop_extends:
  "keys_below u \<Longrightarrow> keys_below (new_loop now ds u) \<and> extends u (new_loop now ds u)"
proof (induction ds arbitrary: u)
  case Nil
  then show ?case by (simp add: extends_refl)
next
  case (Cons x ds)
  obtain d_idx d where x: "x = (d_idx, d)" by (cases x)
  from new_track_extends[OF Cons.prems, of now d_idx d]
  have a: "keys_below (new_track now d_idx d u)" and b: "extends u (new_track now d_idx d u)" by simp_all
  from Cons.IH[OF a] extends_trans[OF b] x show ?case by simp
qed

lemma in_zip_upt: "(j, k) \<in> set (zip [0..<length ks] ks) \<longleftrightarrow> j < length ks \<and> ks ! j = k"
  by (force simp: in_set_zip)

lemma age_loop_zip:
  assumes "distinct ks" and "\<forall>j\<in>set matched. j < length ks"
  shows "map_of (age_loop mx matched (zip [0..<length ks] ks) trks) k =
     (if k \<in> set ks \<and> k \<notin> (!) ks ` set matched
      then (case map_of trks k of None \<Rightarrow> None | Some t \<Rightarrow> aged mx t)
      else map_of trks k)"
proof -
  have "(\<exists>j. (j, k) \<in> set (zip [0..<length ks] ks) \<and> j \<notin> set matched) \<longleftrightarrow>
        (k \<in> set ks \<and> k \<notin> (!) ks ` set matched)"
  proof
    assume "\<exists>j. (j, k) \<in> set (zip [0..<length ks] ks) \<and> j \<notin> set matched"
    then obtain j where j: "j < length ks" "ks ! j = k" "j \<notin> set matched"
      by (auto simp: in_zip_upt)
    have "k \<notin> (!) ks ` set matched"
    proof
      assume "k \<in> (!) ks ` set matched"
      then obtain j' where j': "j' \<in> set matched" "ks ! j' = k" by auto
      with assms(2) have "j' < length ks" by simp
      with j j' nth_eq_iff_index_eq[OF assms(1), of j j'] have "j = j'" by simp
      with j j' show False by simp
    qed
    with j show "k \<in> set ks \<and> k \<notin> (!) ks ` set matched" by auto
  next
    assume a: "k \<in> set ks \<and> k \<notin> (!) ks ` set matched"
    then obtain j where j: "j < length ks" "ks ! j = k" by (auto simp: in_set_conv_nth)
    with a have "j \<notin> set matched" by auto
    with j show "\<exists>j. (j, k) \<in> set (zip [0..<length ks] ks) \<and> j \<notin> set matched"
      by (auto simp: in_zip_upt)
  qed
  moreover have "distinct (map snd (zip [0..<length ks] ks))"
    using assms(1) by simp
  ultimately show ?thesis using age_loop_map_of[of "zip [0..<length ks] ks" mx matched trks k]
    by simp
qed

lemma map_of_None_keys: "map_of al k = None \<longleftrightarrow> k \<notin> set (map fst al)"
  by (simp add: map_of_eq_None_iff)

lemma wf_trackerI:
  assumes "distinct (map fst (tracks s'))" and "set (map fst (tracks s')) \<subseteq> K"
    and "\<forall>k\<in>K. k < next_id s'"
  shows "wf_tracker s'"
  unfolding wf_tracker_def using assms by blast

text \<open>
  The effect of one call on a well-formed tracker: the tracker stays well formed and
  \<open>next_id\<close> does not decrease; a track named in the result is live with no missed
  frame and is either an old track or a new id from \<open>next_id\<close> on; every other track
  has aged by one frame or is deleted, no other id appears, and the histories of ids not
  named in the result are kept.
\<close>

lemma update_effect:
  assumes wf: "wf_tracker s" and up: "update now s dets cls confs = Inr (res, s')"
  shows "wf_tracker s' \<and> next_id s \<le> next_id s' \<and>
     iou_threshold s' = iou_threshold s \<and> max_missed_frames s' = max_missed_frames s \<and>
     (\<forall>k\<in>result_ids res. (\<exists>t. map_of (tracks s') k = Some t \<and> missed_count t = 0) \<and>
        (\<exists>h. track_history s' k = Some h \<and> h \<noteq> []) \<and>
        (k \<in> live_ids s \<or> (next_id s \<le> k \<and> k < next_id s'))) \<and>
     (\<forall>k. k \<notin> result_ids res \<longrightarrow>
        map_of (tracks s') k = (case map_of (tracks s) k of None \<Rightarrow> None
                                | Some t \<Rightarrow> aged (max_missed_frames s) t) \<and>
        (k < next_id s \<longrightarrow> track_history s' k = track_history s k))"
proof (cases "length dets = 0")
  case True
  let ?ks = "map fst (tracks s)"
  let ?mx = "max_missed_frames s"
  let ?trks = "fold (age_track ?mx) ?ks (tracks s)"
  from up True have res: "res = []" and s': "s' = s\<lparr>tracks := ?trks\<rparr>"
    by (simp_all add: update_def)
  have loop: "?trks = age_loop ?mx [] (zip [0..<length ?ks] ?ks) (tracks s)"
    using fold_age_track_as_loop[of ?mx ?ks "tracks s" 0] by simp
  from wf have d: "distinct ?ks" by (simp add: wf_tracker_def)
  have m: "map_of ?trks k = (case map_of (tracks s) k of None \<Rightarrow> None | Some t \<Rightarrow> aged ?mx t)" for k
  proof (cases "k \<in> set ?ks")
    case True
    then show ?thesis unfolding loop using age_loop_zip[OF d, of "[]" ?mx "tracks s" k] by simp
  next
    case False
    then have "map_of (tracks s) k = None" by (simp add: map_of_None_keys)
    with False show ?thesis unfolding loop using age_loop_zip[OF d, of "[]" ?mx "tracks s" k] by simp
  qed
  have sub: "set (map fst ?trks) \<subseteq> set ?ks" unfolding loop by (rule age_loop_keys)
  have dist: "distinct (map fst ?trks)" unfolding loop using d by (rule age_loop_distinct)
  have "wf_tracker s'"
  proof (rule wf_trackerI)
    show "distinct (map fst (tracks s'))" using dist by (simp add: s')
    show "set (map fst (tracks s')) \<subseteq> set ?ks" using sub by (simp add: s')
    show "\<forall>k\<in>set ?ks. k < next_id s'" using wf by (simp add: wf_tracker_def s')
  qed
  then show ?thesis using m by (simp add: s' res result_ids_def)
next
  case False
  with up have lens: "\<not> (length cls < length dets \<or> length confs < length dets)"
    by (auto simp: update_def split: if_splits)
  let ?mx = "max_missed_frames s"
  define ks where "ks = map fst (tracks s)"
  define m where "m = map (\<lambda>detection. map (\<lambda>(track_id, t). calculate_iou detection (bbox t)) (tracks s)) dets"
  define ds where "ds = zip dets (zip cls confs)"
  define u0 where "u0 = \<lparr>u_tracks = tracks s, u_history = track_history s, u_next_id = next_id s,
               u_result = [], tracked_dets = [], tracked_tracks = []\<rparr>"
  define u1 where "u1 = (if length (tracks s) > 0
             then match_loop (iou_threshold s) now ks (zip [0..<length dets] (zip ds m)) u0
             else u0)"
  define u2 where "u2 = new_loop now (zip [0..<length dets] ds) u1"
  define trks where "trks = age_loop ?mx (tracked_tracks u2) (zip [0..<length ks] ks) (u_tracks u2)"
  from up False lens have "Inr (res, s') =
      (Inr (u_result u2, s\<lparr>tracks := trks, track_history := u_history u2, next_id := u_next_id u2\<rparr>)
        :: py_exception + (tracked_object list \<times> tracker))"
    unfolding update_def Let_def trks_def u2_def u1_def u0_def ds_def m_def ks_def by simp
  then have res: "res = u_result u2"
    and s': "s' = s\<lparr>tracks := trks, track_history := u_history u2, next_id := u_next_id u2\<rparr>"
    by simp_all
  from wf have d: "distinct ks" and below: "\<forall>k\<in>set ks. k < next_id s"
    unfolding wf_tracker_def ks_def by blast+
  have lks: "length ks = length (tracks s)" by (simp add: ks_def)
  have i0: "match_inv ks (tracks s) (track_history s) (next_id s) u0"
    by (simp add: match_inv_def u0_def ks_def)
  have rows: "\<forall>x\<in>set (zip [0..<length dets] (zip ds m)). length (snd (snd x)) = length ks"
    unfolding m_def lks by (auto dest!: set_zip_rightD)
  have i1: "match_inv ks (tracks s) (track_history s) (next_id s) u1"
  proof (cases "length (tracks s) > 0")
    case True
    show ?thesis using match_loop_inv[OF i0 rows] unfolding u1_def by (simp only: True if_True)
  next
    case False
    show ?thesis using i0 unfolding u1_def by (simp only: False if_False)
  qed
  then have kb1: "keys_below u1" using d below by (simp add: keys_below_def match_inv_def)
  from new_loop_extends[OF kb1] have kb2: "keys_below u2" and ex: "extends u1 u2"
    unfolding u2_def by simp_all
  let ?M = "(!) ks ` set (tracked_tracks u1)"
  from i1 have n1: "u_next_id u1 = next_id s"
    and mj: "\<forall>j\<in>set (tracked_tracks u1). j < length ks"
    and r0: "map track_id_of (u_result u1) = map ((!) ks) (tracked_tracks u1)"
    unfolding match_inv_def by blast+
  from i1 have un1: "map_of (u_tracks u1) k = map_of (tracks s) k \<and> u_history u1 k = track_history s k"
    if "k \<notin> ?M" for k
    unfolding match_inv_def using that by blast
  from i1 have ma1: "(\<exists>t. map_of (u_tracks u1) k = Some t \<and> missed_count t = 0) \<and>
      (\<exists>h. u_history u1 k = Some h \<and> h \<noteq> [])" if "k \<in> ?M" for k
    unfolding match_inv_def using that by blast
  from r0 have "set (map track_id_of (u_result u1)) = set (map ((!) ks) (tracked_tracks u1))"
    by (rule arg_cong)
  then have r1: "set (map track_id_of (u_result u1)) = ?M" by (simp only: set_map)
  have Mold: "?M \<subseteq> set ks"
  proof
    fix k assume "k \<in> ?M"
    then obtain j where "j \<in> set (tracked_tracks u1)" "k = ks ! j" by blast
    with mj show "k \<in> set ks" using nth_mem[of j ks] by simp
  qed
  from ex have n2: "next_id s \<le> u_next_id u2"
    and tt: "tracked_tracks u2 = tracked_tracks u1"
    and r2: "set (map track_id_of (u_result u2)) = ?M \<union> {next_id s..<u_next_id u2}"
    unfolding extends_def n1 r1 by blast+
  from ex have lo: "map_of (u_tracks u2) k = map_of (u_tracks u1) k \<and> u_history u2 k = u_history u1 k"
    if "k < next_id s" for k
    unfolding extends_def n1 using that by blast
  from ex have nw: "(\<exists>t. map_of (u_tracks u2) k = Some t \<and> missed_count t = 0) \<and>
      (\<exists>h. u_history u2 k = Some h \<and> h \<noteq> [])"
    if "next_id s \<le> k" "k < u_next_id u2" for k
    unfolding extends_def n1 using that by blast
  have rid: "result_ids res = ?M \<union> {next_id s..<u_next_id u2}"
    unfolding result_ids_def res using r2 .
  have fin: "map_of trks k =
     (if k \<in> set ks \<and> k \<notin> ?M
      then (case map_of (u_tracks u2) k of None \<Rightarrow> None | Some t \<Rightarrow> aged ?mx t)
      else map_of (u_tracks u2) k)" for k
    using age_loop_zip[OF d, of "tracked_tracks u2" ?mx "u_tracks u2" k] mj unfolding tt trks_def by simp
  have sub: "set (map fst trks) \<subseteq> set (map fst (u_tracks u2))"
    unfolding trks_def by (rule age_loop_keys)
  have dist: "distinct (map fst trks)"
    using kb2 unfolding keys_below_def trks_def by (intro age_loop_distinct) simp
  have w: "wf_tracker s'"
  proof (rule wf_trackerI)
    show "distinct (map fst (tracks s'))" using dist by (simp add: s')
    show "set (map fst (tracks s')) \<subseteq> set (map fst (u_tracks u2))" using sub by (simp add: s')
    show "\<forall>k\<in>set (map fst (u_tracks u2)). k < next_id s'"
      using kb2 unfolding keys_below_def by (simp add: s')
  qed
  have inres: "(\<exists>t. map_of (tracks s') k = Some t \<and> missed_count t = 0) \<and>
        (\<exists>h. track_history s' k = Some h \<and> h \<noteq> []) \<and>
        (k \<in> live_ids s \<or> (next_id s \<le> k \<and> k < next_id s'))" if "k \<in> result_ids res" for k
  proof (cases "k \<in> ?M")
    case True
    with Mold have ko: "k \<in> set ks" by blast
    with below have kl: "k < next_id s" by blast
    from ko have "k \<in> live_ids s" by (simp add: live_ids_def ks_def)
    with fin[of k] True lo[OF kl] ma1[OF True] show ?thesis
      by (simp add: s')
  next
    case False
    with that rid have kn: "next_id s \<le> k" "k < u_next_id u2" by auto
    with below have "k \<notin> set ks" by force
    with fin[of k] nw[OF kn] kn show ?thesis by (simp add: s')
  qed
  have notres: "map_of (tracks s') k = (case map_of (tracks s) k of None \<Rightarrow> None
                                | Some t \<Rightarrow> aged ?mx t) \<and>
        (k < next_id s \<longrightarrow> track_history s' k = track_history s k)" if "k \<notin> result_ids res" for k
  proof -
    from that rid have nM: "k \<notin> ?M" and nn: "\<not> (next_id s \<le> k \<and> k < u_next_id u2)" by auto
    show ?thesis
    proof (cases "k < next_id s")
      case True
      show ?thesis
      proof (cases "k \<in> set ks")
        case K: True
        with lo[OF True] un1[OF nM] fin[of k] nM show ?thesis by (simp add: s')
      next
        case K: False
        then have "map_of (tracks s) k = None" by (simp add: map_of_None_keys ks_def)
        with K lo[OF True] un1[OF nM] fin[of k] show ?thesis by (simp add: s')
      qed
    next
      case False
      with nn have big: "u_next_id u2 \<le> k" by simp
      with kb2 have "k \<notin> set (map fst (u_tracks u2))" unfolding keys_below_def by auto
      then have a: "map_of (u_tracks u2) k = None" by (simp add: map_of_None_keys)
      from False below have "k \<notin> set ks" by force
      then have b: "map_of (tracks s) k = None" by (simp add: map_of_None_keys ks_def)
      from a b fin[of k] False show ?thesis by (simp add: s')
    qed
  qed
  show ?thesis using w n2 inres notres by (simp add: s')
qed

section \<open>Eviction of a track that receives no detection\<close>

lemma missed_of_live: "missed_of s k = Some n \<Longrightarrow> k \<in> live_ids s"
  unfolding missed_of_def live_ids_def
  by (metis map_of_eq_None_iff not_None_eq option.map_disc_iff)

lemma live_ids_map_of: "k \<in> live_ids s \<longleftrightarrow> map_of (tracks s) k \<noteq> None"
  unfolding live_ids_def by (simp add: map_of_eq_None_iff)

lemma unmatched_run_updates: "unmatched_run k s fs \<Longrightarrow> \<exists>s'. updates s fs = Inr s'"
proof (induction fs arbitrary: s)
  case Nil
  then show ?case by simp
next
  case (Cons f fs)
  then obtain res s1 where u: "update_frame s f = Inr (res, s1)" and r: "unmatched_run k s1 fs"
    by (auto split: sum.splits)
  from Cons.IH[OF r] u show ?case by simp
qed

lemma unmatched_run_take: "unmatched_run k s fs \<Longrightarrow> unmatched_run k s (take n fs)"
proof (induction fs arbitrary: s n)
  case Nil
  then show ?case by simp
next
  case (Cons f fs)
  show ?case
  proof (cases n)
    case 0
    then show ?thesis by simp
  next
    case (Suc n')
    from Cons.prems obtain res s1 where u: "update_frame s f = Inr (res, s1)"
      and nk: "k \<notin> result_ids res" and r: "unmatched_run k s1 fs"
      by (auto split: sum.splits)
    from Cons.IH[OF r, of n'] u nk Suc show ?thesis by simp
  qed
qed

lemma unmatched_step:
  assumes wf: "wf_tracker s" and u: "update_frame s f = Inr (res, s1)" and nk: "k \<notin> result_ids res"
    and m: "missed_of s k = Some m0"
  shows "wf_tracker s1 \<and> max_missed_frames s1 = max_missed_frames s \<and>
         (if m0 + 1 \<le> max_missed_frames s then missed_of s1 k = Some (m0 + 1) else k \<notin> live_ids s1)"
proof -
  obtain now dets cls confs where f: "f = (now, dets, cls, confs)" by (cases f)
  with u have up: "update now s dets cls confs = Inr (res, s1)" by (simp add: update_frame_def)
  from m obtain t where t: "map_of (tracks s) k = Some t" "missed_count t = m0"
    by (auto simp: missed_of_def)
  from update_effect[OF wf up] nk t
  have w: "wf_tracker s1" and mx: "max_missed_frames s1 = max_missed_frames s"
    and a: "map_of (tracks s1) k = aged (max_missed_frames s) t"
    by auto
  from a t(2) have "if m0 + 1 \<le> max_missed_frames s then missed_of s1 k = Some (m0 + 1)
      else k \<notin> live_ids s1"
    by (auto simp: aged_def missed_of_def live_ids_map_of)
  with w mx show ?thesis by simp
qed

lemma eviction_general:
  assumes "wf_tracker s" and "missed_of s k = Some m0" and "unmatched_run k s fs"
    and "m0 + length fs \<le> max_missed_frames s + 1" and "m0 \<le> max_missed_frames s"
  shows "\<exists>s'. updates s fs = Inr s' \<and>
     (if m0 + length fs \<le> max_missed_frames s then missed_of s' k = Some (m0 + length fs)
      else k \<notin> live_ids s')"
  using assms
proof (induction fs arbitrary: s m0)
  case Nil
  then show ?case by simp
next
  case (Cons f fs)
  from Cons.prems(3) obtain res s1 where u: "update_frame s f = Inr (res, s1)"
    and nk: "k \<notin> result_ids res" and r: "unmatched_run k s1 fs"
    by (auto split: sum.splits)
  from unmatched_step[OF Cons.prems(1) u nk Cons.prems(2)]
  have w: "wf_tracker s1" and mx: "max_missed_frames s1 = max_missed_frames s"
    and st: "if m0 + 1 \<le> max_missed_frames s then missed_of s1 k = Some (m0 + 1) else k \<notin> live_ids s1"
    by simp_all
  show ?case
  proof (cases "m0 + 1 \<le> max_missed_frames s")
    case True
    with st have m1: "missed_of s1 k = Some (m0 + 1)" by simp
    from Cons.prems(4) have le: "(m0 + 1) + length fs \<le> max_missed_frames s1 + 1" by (simp add: mx)
    from True have "m0 + 1 \<le> max_missed_frames s1" by (simp add: mx)
    from Cons.IH[OF w m1 r le this] obtain s' where s': "updates s1 fs = Inr s'"
      "if m0 + 1 + length fs \<le> max_missed_frames s1 then missed_of s' k = Some (m0 + 1 + length fs)
       else k \<notin> live_ids s'" by blast
    from s'(1) u have "updates s (f # fs) = Inr s'" by simp
    moreover from s'(2) have "if m0 + length (f # fs) \<le> max_missed_frames s
       then missed_of s' k = Some (m0 + length (f # fs)) else k \<notin> live_ids s'"
      by (simp add: mx)
    ultimately show ?thesis by blast
  next
    case False
    with Cons.prems(4) have fs: "fs = []" by (cases fs) auto
    with False st u show ?thesis by simp
  qed
qed

text \<open>
  C3. A live track of a well-formed tracker that has missed no frame and then receives no
  detection in \<open>max_missed_frames + 1\<close> consecutive calls is still live after each of the
  first \<open>max_missed_frames\<close> of them, its \<open>missed_count\<close> being the number of calls so
  far, and is gone from the live set after the last one.
\<close>

theorem eviction_timing:
  assumes "wf_tracker s" and "missed_of s k = Some 0" and "unmatched_run k s fs"
    and "length fs = max_missed_frames s + 1"
  shows "\<forall>n\<le>length fs. \<exists>s'. updates s (take n fs) = Inr s' \<and>
     (if n \<le> max_missed_frames s then k \<in> live_ids s' \<and> missed_of s' k = Some n
      else k \<notin> live_ids s')"
proof (intro allI impI)
  fix n assume n: "n \<le> length fs"
  then have l: "length (take n fs) = n" by simp
  from n assms(4) have le: "0 + length (take n fs) \<le> max_missed_frames s + 1" by simp
  from eviction_general[OF assms(1,2) unmatched_run_take[OF assms(3)] le]
  have "\<exists>s'. updates s (take n fs) = Inr s' \<and>
     (if 0 + length (take n fs) \<le> max_missed_frames s
      then missed_of s' k = Some (0 + length (take n fs)) else k \<notin> live_ids s')"
    by simp
  then
  obtain s' where s': "updates s (take n fs) = Inr s'"
    "if n \<le> max_missed_frames s then missed_of s' k = Some n else k \<notin> live_ids s'"
    unfolding l by auto
  then show "\<exists>s'. updates s (take n fs) = Inr s' \<and>
     (if n \<le> max_missed_frames s then k \<in> live_ids s' \<and> missed_of s' k = Some n
      else k \<notin> live_ids s')"
    using missed_of_live[of s' k n] by (cases "n \<le> max_missed_frames s") auto
qed

lemma one_track_reached:
  "update 0 (IoUTracker (1 / 2) mx) [box_a] [0] [9 / 10] = Inr ([(0, 0, 10, 10, 1, 0, 9 / 10)], one_track mx)"
  by (simp add: update_def IoUTracker_def one_track_def new_track_def tracked_def box_a_def
      entry_a_def Let_def)

lemma one_track_wf: "wf_tracker (one_track mx)"
  by (simp add: wf_tracker_def one_track_def)

text \<open>
  A tracker with \<open>max_missed_frames = 2\<close> and one track, then three calls without
  detections: the track has missed two frames after the second call and is gone after
  the third.
\<close>

theorem eviction_timing_witness:
  "wf_tracker (one_track 2) \<and> missed_of (one_track 2) 1 = Some 0 \<and>
   unmatched_run 1 (one_track 2) [empty_frame 1, empty_frame 2, empty_frame 3] \<and>
   length [empty_frame 1, empty_frame 2, empty_frame 3] = max_missed_frames (one_track 2) + 1 \<and>
   (\<exists>s'. updates (one_track 2) [empty_frame 1, empty_frame 2] = Inr s' \<and>
         1 \<in> live_ids s' \<and> missed_of s' 1 = Some 2) \<and>
   (\<exists>s'. updates (one_track 2) [empty_frame 1, empty_frame 2, empty_frame 3] = Inr s' \<and>
         1 \<notin> live_ids s')"
proof -
  let ?fs = "[empty_frame 1, empty_frame 2, empty_frame 3]"
  have w: "wf_tracker (one_track 2)" by (rule one_track_wf)
  have m: "missed_of (one_track 2) 1 = Some 0" by (simp add: missed_of_def one_track_def)
  have u: "unmatched_run 1 (one_track 2) ?fs"
    by (simp add: one_track_def update_frame_def empty_frame_def update_def age_track_def
        result_ids_def)
  have l: "length ?fs = max_missed_frames (one_track 2) + 1" by (simp add: one_track_def)
  have mx: "max_missed_frames (one_track 2) = 2" by (simp add: one_track_def)
  note t = eviction_timing[OF w m u l, rule_format]
  from t[of 2] have a: "\<exists>s'. updates (one_track 2) [empty_frame 1, empty_frame 2] = Inr s' \<and>
         1 \<in> live_ids s' \<and> missed_of s' 1 = Some 2" by (simp add: mx)
  from t[of 3] have b: "\<exists>s'. updates (one_track 2) ?fs = Inr s' \<and> 1 \<notin> live_ids s'"
    by (simp add: mx)
  from w m u l a b show ?thesis by blast
qed

section \<open>The history of a destroyed track\<close>

lemma update_has_histories:
  assumes wf: "wf_tracker s" and hh: "has_histories s"
    and up: "update now s dets cls confs = Inr (res, s')"
  shows "has_histories s'"
  unfolding has_histories_def
proof
  fix k assume k: "k \<in> live_ids s'"
  note e = update_effect[OF wf up]
  show "\<exists>h. track_history s' k = Some h \<and> h \<noteq> []"
  proof (cases "k \<in> result_ids res")
    case True
    with e show ?thesis by blast
  next
    case False
    with e have m: "map_of (tracks s') k = (case map_of (tracks s) k of None \<Rightarrow> None
                                | Some t \<Rightarrow> aged (max_missed_frames s) t)"
      and h: "k < next_id s \<longrightarrow> track_history s' k = track_history s k" by blast+
    from k m have "map_of (tracks s) k \<noteq> None"
      by (auto simp: live_ids_map_of split: option.splits)
    then have kl: "k \<in> live_ids s" by (simp add: live_ids_map_of)
    with wf have "k < next_id s" by (auto simp: wf_tracker_def live_ids_def)
    with h kl hh show ?thesis by (auto simp: has_histories_def)
  qed
qed

lemma updates_invariants:
  "wf_tracker s \<Longrightarrow> has_histories s \<Longrightarrow> updates s fs = Inr s' \<Longrightarrow> wf_tracker s' \<and> has_histories s'"
proof (induction fs arbitrary: s)
  case Nil
  then show ?case by simp
next
  case (Cons f fs)
  obtain now dets cls confs where f: "f = (now, dets, cls, confs)" by (cases f)
  from Cons.prems(3) obtain res s1 where u: "update now s dets cls confs = Inr (res, s1)"
    and r: "updates s1 fs = Inr s'"
    by (auto simp: f update_frame_def split: sum.splits)
  from update_effect[OF Cons.prems(1) u] have w: "wf_tracker s1" by blast
  from update_has_histories[OF Cons.prems(1,2) u] have h: "has_histories s1" .
  from Cons.IH[OF w h r] show ?case .
qed

lemma new_tracker_invariants: "wf_tracker (IoUTracker thr mx) \<and> has_histories (IoUTracker thr mx)"
  by (simp add: wf_tracker_def has_histories_def IoUTracker_def live_ids_def)

text \<open>
  C10, as amended. When a call destroys a track (it is live before the call and not after
  it), the history stored for its id is what it was before the call: the entries remain,
  and there is at least one.
\<close>

theorem history_kept_when_destroyed:
  assumes "wf_tracker s" and "has_histories s"
    and "update now s dets cls confs = Inr (res, s')"
    and "k \<in> live_ids s" and "k \<notin> live_ids s'"
  shows "track_history s' k = track_history s k \<and> (\<exists>h. track_history s' k = Some h \<and> h \<noteq> [])"
proof -
  note e = update_effect[OF assms(1,3)]
  have nr: "k \<notin> result_ids res"
  proof
    assume "k \<in> result_ids res"
    with e have "\<exists>t. map_of (tracks s') k = Some t \<and> missed_count t = 0" by blast
    with assms(5) show False by (auto simp: live_ids_map_of)
  qed
  from assms(1,4) have "k < next_id s" by (auto simp: wf_tracker_def live_ids_def)
  with e nr have "track_history s' k = track_history s k" by blast
  with assms(2,4) show ?thesis by (auto simp: has_histories_def)
qed

text \<open>
  A tracker with \<open>max_missed_frames = 0\<close> and one track, then a call without detections:
  the track is destroyed and its history entry is still stored.
\<close>

theorem history_kept_when_destroyed_witness:
  "wf_tracker (one_track 0) \<and> has_histories (one_track 0) \<and>
   update 1 (one_track 0) [] [] [] = Inr ([], (one_track 0)\<lparr>tracks := []\<rparr>) \<and>
   1 \<in> live_ids (one_track 0) \<and> 1 \<notin> live_ids ((one_track 0)\<lparr>tracks := []\<rparr>) \<and>
   track_history ((one_track 0)\<lparr>tracks := []\<rparr>) 1 = track_history (one_track 0) 1"
proof -
  have w: "wf_tracker (one_track 0)" by (rule one_track_wf)
  have h: "has_histories (one_track 0)"
    by (simp add: has_histories_def live_ids_def one_track_def)
  have u: "update 1 (one_track 0) [] [] [] = Inr ([], (one_track 0)\<lparr>tracks := []\<rparr>)"
    by (simp add: update_def one_track_def age_track_def)
  have a: "1 \<in> live_ids (one_track 0)" by (simp add: live_ids_def one_track_def)
  have b: "1 \<notin> live_ids ((one_track 0)\<lparr>tracks := []\<rparr>)" by (simp add: live_ids_def)
  from history_kept_when_destroyed[OF w h u a b] w h u a b show ?thesis by blast
qed

text \<open>
  C10 as stated fails: after the call that destroys track 1 its history still holds the
  entry of its creation.
\<close>

theorem history_destroyed_counterexample:
  "update 0 (IoUTracker (1 / 2) 0) [box_a] [0] [9 / 10] = Inr ([(0, 0, 10, 10, 1, 0, 9 / 10)], one_track 0) \<and>
   update 1 (one_track 0) [] [] [] = Inr ([], (one_track 0)\<lparr>tracks := []\<rparr>) \<and>
   1 \<in> live_ids (one_track 0) \<and> 1 \<notin> live_ids ((one_track 0)\<lparr>tracks := []\<rparr>) \<and>
   track_history ((one_track 0)\<lparr>tracks := []\<rparr>) 1 = Some [entry_a]"
proof -
  have u: "update 1 (one_track 0) [] [] [] = Inr ([], (one_track 0)\<lparr>tracks := []\<rparr>)"
    by (simp add: update_def one_track_def age_track_def)
  have a: "1 \<in> live_ids (one_track 0)" by (simp add: live_ids_def one_track_def)
  have b: "1 \<notin> live_ids ((one_track 0)\<lparr>tracks := []\<rparr>)" by (simp add: live_ids_def)
  have c: "track_history ((one_track 0)\<lparr>tracks := []\<rparr>) 1 = Some [entry_a]"
    by (simp add: one_track_def)
  from one_track_reached[of 0] u a b c show ?thesis by blast
qed

section \<open>One call of the RingScreen \<open>update\<close>: the keys\<close>

lemma ring_pairs_set:
  "(v, i, j) \<in> set (ring_pairs thr m n k) \<longleftrightarrow> i < n \<and> j < k \<and> v = m ! i ! j \<and> m ! i ! j \<ge> thr"
  by (auto simp: ring_pairs_def)

lemma ring_greedy_tids:
  assumes "\<forall>(v, i, j)\<in>set ps. j < length tids"
    and "fst ` set results \<subseteq> set tids"
    and "ring_greedy tids dets ps (results, used_t, used_d) = (results', used_t', used_d')"
  shows "fst ` set results' \<subseteq> set tids"
  using assms
proof (induction ps arbitrary: results used_t used_d)
  case Nil
  then show ?case by simp
next
  case (Cons p ps)
  obtain v i j where p: "p = (v, i, j)" by (cases p)
  with Cons.prems(1) have j: "j < length tids" and rest: "\<forall>(v, i, j)\<in>set ps. j < length tids"
    by auto
  show ?case
  proof (cases "tids ! j \<in> set used_t \<or> i \<in> set used_d")
    case True
    with Cons.prems(3) p have "ring_greedy tids dets ps (results, used_t, used_d) = (results', used_t', used_d')"
      by simp
    from Cons.IH[OF rest Cons.prems(2) this] show ?thesis .
  next
    case False
    with Cons.prems(3) p have g: "ring_greedy tids dets ps
        (results @ [(tids ! j, dets ! i)], used_t @ [tids ! j], used_d @ [i]) = (results', used_t', used_d')"
      by (simp add: Let_def)
    have "fst ` set (results @ [(tids ! j, dets ! i)]) \<subseteq> set tids"
      using Cons.prems(2) j by auto
    from Cons.IH[OF rest this g] show ?thesis .
  qed
qed

lemma ring_set_matched_keys:
  "fst ` set results \<subseteq> set (map fst trks) \<Longrightarrow> map fst (ring_set_matched results trks) = map fst trks"
  unfolding ring_set_matched_def
proof (induction results arbitrary: trks)
  case Nil
  then show ?case by simp
next
  case (Cons r results)
  obtain tid bb where r: "r = (tid, bb)" by (cases r)
  with Cons.prems have tid: "tid \<in> set (map fst trks)" by auto
  then have k: "map fst (AList.update tid \<lparr>face_bbox = bb, missed = 0\<rparr> trks) = map fst trks"
    by (simp add: AList.update_keys)
  from Cons.prems have "fst ` set results \<subseteq> set (map fst (AList.update tid \<lparr>face_bbox = bb, missed = 0\<rparr> trks))"
    unfolding k by auto
  from Cons.IH[OF this] k r show ?case by simp
qed

lemma ring_miss_keys: "map fst (ring_miss used_t tid trks) = map fst trks"
proof (cases "map_of trks tid")
  case None
  then show ?thesis by (simp add: ring_miss_def)
next
  case (Some t)
  then have "tid \<in> set (map fst trks)" using map_of_eq_None_iff[of trks tid] by force
  with Some show ?thesis by (simp add: ring_miss_def AList.update_keys)
qed

lemma fold_ring_miss_keys: "map fst (fold (ring_miss used_t) tids trks) = map fst trks"
  by (induction tids arbitrary: trks) (simp_all add: ring_miss_keys)

lemma ring_new_track_keys:
  assumes "\<forall>k\<in>set (map fst trks). k < nid"
    and "ring_new_track d (trks, nid, results) = (trks', nid', results')"
  shows "map fst trks' = map fst trks @ [nid] \<and> nid' = Suc nid \<and> results' = results @ [(nid, d)]"
proof -
  from assms(1) have "nid \<notin> set (map fst trks)" by blast
  with assms(2) show ?thesis by (auto simp: ring_new_track_def AList.update_keys)
qed

lemma ring_new_loop_keys:
  assumes "\<forall>k\<in>set (map fst trks). k < nid"
    and "fold (\<lambda>(idx, d) st. if idx \<in> set used_d then st else ring_new_track d st) xs (trks, nid, results)
           = (trks', nid', results')"
  shows "map fst trks' = map fst trks @ [nid..<nid'] \<and> nid \<le> nid' \<and>
         map fst results' = map fst results @ [nid..<nid']"
  using assms
proof (induction xs arbitrary: trks nid results)
  case Nil
  then show ?case by simp
next
  case (Cons x xs)
  obtain idx d where x: "x = (idx, d)" by (cases x)
  show ?case
  proof (cases "idx \<in> set used_d")
    case True
    with Cons.prems(2) x have "fold (\<lambda>(idx, d) st. if idx \<in> set used_d then st else ring_new_track d st) xs
        (trks, nid, results) = (trks', nid', results')" by simp
    from Cons.IH[OF Cons.prems(1) this] show ?thesis .
  next
    case False
    obtain trks1 nid1 results1 where n: "ring_new_track d (trks, nid, results) = (trks1, nid1, results1)"
      by (metis prod_cases3)
    from ring_new_track_keys[OF Cons.prems(1) n]
    have k1: "map fst trks1 = map fst trks @ [nid]" and n1: "nid1 = Suc nid"
      and r1: "results1 = results @ [(nid, d)]" by simp_all
    from Cons.prems(1) k1 n1 have b: "\<forall>k\<in>set (map fst trks1). k < nid1" by auto
    from Cons.prems(2) x False n
    have "fold (\<lambda>(idx, d) st. if idx \<in> set used_d then st else ring_new_track d st) xs
        (trks1, nid1, results1) = (trks', nid', results')" by simp
    from Cons.IH[OF b this]
    have a: "map fst trks' = map fst trks1 @ [nid1..<nid']" and le: "nid1 \<le> nid'"
      and r: "map fst results' = map fst results1 @ [nid1..<nid']" by simp_all
    from le n1 have u: "[nid..<nid'] = nid # [nid1..<nid']" by (simp add: upt_conv_Cons)
    from a k1 r r1 le n1 show ?thesis unfolding u by simp
  qed
qed

lemma ring_fresh_loop_keys:
  assumes "\<forall>k\<in>set (map fst trks). k < nid"
    and "fold ring_new_track ds (trks, nid, results) = (trks', nid', results')"
  shows "map fst trks' = map fst trks @ [nid..<nid'] \<and> nid \<le> nid' \<and>
         map fst results' = map fst results @ [nid..<nid']"
  using assms
proof (induction ds arbitrary: trks nid results)
  case Nil
  then show ?case by simp
next
  case (Cons d ds)
  obtain trks1 nid1 results1 where n: "ring_new_track d (trks, nid, results) = (trks1, nid1, results1)"
    by (metis prod_cases3)
  from ring_new_track_keys[OF Cons.prems(1) n]
  have k1: "map fst trks1 = map fst trks @ [nid]" and n1: "nid1 = Suc nid"
    and r1: "results1 = results @ [(nid, d)]" by simp_all
  from Cons.prems(1) k1 n1 have b: "\<forall>k\<in>set (map fst trks1). k < nid1" by auto
  from Cons.prems(2) n have "fold ring_new_track ds (trks1, nid1, results1) = (trks', nid', results')"
    by simp
  from Cons.IH[OF b this]
  have a: "map fst trks' = map fst trks1 @ [nid1..<nid']" and le: "nid1 \<le> nid'"
    and r: "map fst results' = map fst results1 @ [nid1..<nid']" by simp_all
  from le n1 have u: "[nid..<nid'] = nid # [nid1..<nid']" by (simp add: upt_conv_Cons)
  from a k1 r r1 le n1 show ?case unfolding u by simp
qed

lemma sorted_keys_append_upt:
  assumes "sorted_wrt (<) ks" and "\<forall>k\<in>set ks. k < (n::nat)"
  shows "sorted_wrt (<) (ks @ [n..<n'])"
  using assms by (auto simp: sorted_wrt_append)

lemma ring_delete_missed_keys:
  "sorted_wrt (<) (map fst trks) \<Longrightarrow> sorted_wrt (<) (map fst (ring_delete_missed mx trks))"
  "set (map fst (ring_delete_missed mx trks)) \<subseteq> set (map fst trks)"
  unfolding ring_delete_missed_def
  by (induction trks) auto

lemma ring_match_tids:
  assumes "ring_match s ds = (results, used_t, used_d)"
  shows "fst ` set results \<subseteq> set (map fst (ring_tracks s))"
proof -
  let ?tids = "map fst (ring_tracks s)"
  let ?m = "map (\<lambda>d. map (\<lambda>(tid, t). ring_iou (face_bbox t) d) (ring_tracks s)) ds"
  let ?ps = "ring_pairs (ring_iou_threshold s) ?m (length ds) (length ?tids)"
  have a: "\<forall>(v, i, j)\<in>set ?ps. j < length ?tids" by (auto simp: ring_pairs_set)
  have b: "fst ` set ([] :: (nat \<times> bbox) list) \<subseteq> set ?tids" by simp
  from assms have "ring_greedy ?tids ds ?ps ([], [], []) = (results, used_t, used_d)"
    by (simp add: ring_match_def Let_def)
  from ring_greedy_tids[OF a b this] show ?thesis .
qed

lemma ring_update_fresh:
  assumes "map fst (ring_tracks s) = []"
    and "fold ring_new_track ds (ring_tracks s, ring_next_id s, []) = (trks, nid, results)"
  shows "ring_update s ds = (results, s\<lparr>ring_tracks := trks, ring_next_id := nid\<rparr>)"
  unfolding ring_update_def Let_def using assms by (simp only: if_True prod.case simp_thms)

lemma ring_update_live:
  assumes "map fst (ring_tracks s) \<noteq> []"
    and "ring_match s ds = (results, used_t, used_d)"
    and "fold (\<lambda>(idx, d) st. if idx \<in> set used_d then st else ring_new_track d st)
            (zip [0..<length ds] ds) (ring_set_matched results (ring_tracks s), ring_next_id s, results)
         = (trks2, nid, results')"
  shows "ring_update s ds =
     (results', s\<lparr>ring_tracks := ring_delete_missed (max_missed s)
                      (fold (ring_miss used_t) (map fst (ring_tracks s)) trks2),
                   ring_next_id := nid\<rparr>)"
  unfolding ring_update_def Let_def using assms by (simp only: if_False prod.case simp_thms)

text \<open>
  One call keeps the tracker well formed, does not decrease \<open>next_id\<close>, leaves the
  parameters alone, and the live ids after it are old live ids or ids from the old
  \<open>next_id\<close> on.
\<close>

lemma ring_update_keys:
  assumes wf: "ring_wf s" and up: "ring_update s ds = (res, s')"
  shows "ring_wf s' \<and> ring_next_id s \<le> ring_next_id s' \<and>
     ring_iou_threshold s' = ring_iou_threshold s \<and> max_missed s' = max_missed s \<and>
     ring_live_ids s' \<subseteq> ring_live_ids s \<union> {ring_next_id s..<ring_next_id s'}"
proof -
  define ks where "ks = map fst (ring_tracks s)"
  from wf have srt: "sorted_wrt (<) ks" and below: "\<forall>k\<in>set ks. k < ring_next_id s"
    unfolding ring_wf_def ks_def by blast+
  show ?thesis
  proof (cases "ks = []")
    case True
    obtain trks nid results where f: "fold ring_new_track ds (ring_tracks s, ring_next_id s, []) = (trks, nid, results)"
      by (metis prod_cases3)
    from True have e: "map fst (ring_tracks s) = []" unfolding ks_def .
    from ring_update_fresh[OF e f] up have s': "s' = s\<lparr>ring_tracks := trks, ring_next_id := nid\<rparr>"
      by simp
    have b0: "\<forall>k\<in>set (map fst (ring_tracks s)). k < ring_next_id s" using below by (simp add: ks_def)
    from ring_fresh_loop_keys[OF b0 f]
    have k: "map fst trks = ks @ [ring_next_id s..<nid]" and le: "ring_next_id s \<le> nid"
      by (simp_all add: ks_def)
    have "sorted_wrt (<) (map fst trks)" unfolding k using srt below by (rule sorted_keys_append_upt)
    moreover have "\<forall>k\<in>set (map fst trks). k < nid" unfolding k using below le by auto
    ultimately have "ring_wf s'" by (simp add: ring_wf_def s')
    moreover have "ring_live_ids s' \<subseteq> ring_live_ids s \<union> {ring_next_id s..<ring_next_id s'}"
      using arg_cong[OF k, of set] by (simp add: ring_live_ids_def s' ks_def)
    ultimately show ?thesis using le by (simp add: s')
  next
    case False
    obtain results used_t used_d where m: "ring_match s ds = (results, used_t, used_d)"
      by (metis prod_cases3)
    define trks1 where "trks1 = ring_set_matched results (ring_tracks s)"
    define r where "r = fold (\<lambda>(idx, d) st. if idx \<in> set used_d then st else ring_new_track d st)
            (zip [0..<length ds] ds) (trks1, ring_next_id s, results)"
    obtain trks2 nid results' where r: "r = (trks2, nid, results')" by (cases r)
    have f: "fold (\<lambda>(idx, d) st. if idx \<in> set used_d then st else ring_new_track d st)
            (zip [0..<length ds] ds) (trks1, ring_next_id s, results) = (trks2, nid, results')"
      using r unfolding r_def .
    define trks3 where "trks3 = fold (ring_miss used_t) ks trks2"
    define trks4 where "trks4 = ring_delete_missed (max_missed s) trks3"
    from False have ne: "map fst (ring_tracks s) \<noteq> []" unfolding ks_def .
    from ring_update_live[OF ne m f[unfolded trks1_def]] up
    have s': "s' = s\<lparr>ring_tracks := trks4, ring_next_id := nid\<rparr>"
      unfolding trks4_def trks3_def ks_def by simp
    from ring_match_tids[OF m] have "fst ` set results \<subseteq> set (map fst (ring_tracks s))" .
    from ring_set_matched_keys[OF this] have k1: "map fst trks1 = ks" by (simp add: trks1_def ks_def)
    have b1: "\<forall>k\<in>set (map fst trks1). k < ring_next_id s" unfolding k1 using below .
    from ring_new_loop_keys[OF b1 f]
    have k2: "map fst trks2 = ks @ [ring_next_id s..<nid]" and le: "ring_next_id s \<le> nid"
      by (simp_all add: k1)
    have k3: "map fst trks3 = ks @ [ring_next_id s..<nid]"
      unfolding trks3_def by (simp add: fold_ring_miss_keys k2)
    have s3: "sorted_wrt (<) (map fst trks3)" unfolding k3 using srt below by (rule sorted_keys_append_upt)
    have s4: "sorted_wrt (<) (map fst trks4)" unfolding trks4_def using s3 by (rule ring_delete_missed_keys)
    have sub: "set (map fst trks4) \<subseteq> set (map fst trks3)"
      unfolding trks4_def by (rule ring_delete_missed_keys)
    have b3: "\<forall>k\<in>set (map fst trks3). k < nid" unfolding k3 using below le by auto
    with sub have b4: "\<forall>k\<in>set (map fst trks4). k < nid" by blast
    from s4 b4 have "ring_wf s'" by (simp add: ring_wf_def s')
    moreover have "ring_live_ids s' \<subseteq> ring_live_ids s \<union> {ring_next_id s..<ring_next_id s'}"
      using sub arg_cong[OF k3, of set] by (simp add: ring_live_ids_def s' ks_def)
    ultimately show ?thesis using le by (simp add: s')
  qed
qed

section \<open>Track ids are distinct and never used again\<close>

lemma update_retired:
  assumes wf: "wf_tracker s" and up: "update now s dets cls confs = Inr (res, s')"
    and k: "k < next_id s" "k \<notin> live_ids s"
  shows "k \<notin> live_ids s'"
proof -
  note e = update_effect[OF wf up]
  have "k \<notin> result_ids res"
  proof
    assume "k \<in> result_ids res"
    with e have "k \<in> live_ids s \<or> (next_id s \<le> k \<and> k < next_id s')" by blast
    with k show False by simp
  qed
  with e have "map_of (tracks s') k = (case map_of (tracks s) k of None \<Rightarrow> None
                                | Some t \<Rightarrow> aged (max_missed_frames s) t)" by blast
  moreover from k(2) have "map_of (tracks s) k = None" by (simp add: live_ids_map_of)
  ultimately show ?thesis by (simp add: live_ids_map_of)
qed

lemma updates_chain:
  "wf_tracker s \<Longrightarrow> updates s fs = Inr s' \<Longrightarrow>
   wf_tracker s' \<and> next_id s \<le> next_id s' \<and> (\<forall>k. k < next_id s \<and> k \<notin> live_ids s \<longrightarrow> k \<notin> live_ids s')"
proof (induction fs arbitrary: s)
  case Nil
  then show ?case by simp
next
  case (Cons f fs)
  obtain now dets cls confs where f: "f = (now, dets, cls, confs)" by (cases f)
  from Cons.prems(2) obtain res s1 where u: "update now s dets cls confs = Inr (res, s1)"
    and r: "updates s1 fs = Inr s'"
    by (auto simp: f update_frame_def split: sum.splits)
  from update_effect[OF Cons.prems(1) u] have w: "wf_tracker s1" and le: "next_id s \<le> next_id s1"
    by blast+
  from Cons.IH[OF w r] have w': "wf_tracker s'" and le': "next_id s1 \<le> next_id s'"
    and ret: "\<And>k. k < next_id s1 \<Longrightarrow> k \<notin> live_ids s1 \<Longrightarrow> k \<notin> live_ids s'" by blast+
  have "k \<notin> live_ids s'" if "k < next_id s" "k \<notin> live_ids s" for k
  proof -
    from update_retired[OF Cons.prems(1) u that] have "k \<notin> live_ids s1" .
    moreover from that(1) le have "k < next_id s1" by simp
    ultimately show ?thesis by (rule ret[rotated])
  qed
  with w' le le' show ?case by auto
qed

lemma ring_updates_chain:
  "ring_wf s \<Longrightarrow>
   ring_wf (ring_updates s dss) \<and> ring_next_id s \<le> ring_next_id (ring_updates s dss) \<and>
   (\<forall>k. k < ring_next_id s \<and> k \<notin> ring_live_ids s \<longrightarrow> k \<notin> ring_live_ids (ring_updates s dss))"
proof (induction dss arbitrary: s)
  case Nil
  then show ?case by simp
next
  case (Cons ds dss)
  obtain res s1 where u: "ring_update s ds = (res, s1)" by (cases "ring_update s ds")
  from ring_update_keys[OF Cons.prems u] have w: "ring_wf s1" and le: "ring_next_id s \<le> ring_next_id s1"
    and sub: "ring_live_ids s1 \<subseteq> ring_live_ids s \<union> {ring_next_id s..<ring_next_id s1}" by blast+
  from Cons.IH[OF w] have w': "ring_wf (ring_updates s1 dss)"
    and le': "ring_next_id s1 \<le> ring_next_id (ring_updates s1 dss)"
    and ret: "\<And>k. k < ring_next_id s1 \<Longrightarrow> k \<notin> ring_live_ids s1 \<Longrightarrow> k \<notin> ring_live_ids (ring_updates s1 dss)"
    by blast+
  have "k \<notin> ring_live_ids (ring_updates s1 dss)" if "k < ring_next_id s" "k \<notin> ring_live_ids s" for k
  proof -
    from that sub have "k \<notin> ring_live_ids s1" by auto
    moreover from that(1) le have "k < ring_next_id s1" by simp
    ultimately show ?thesis by (rule ret[rotated])
  qed
  with w' le le' u show ?case by auto
qed

lemma wf_live_below: "wf_tracker s \<Longrightarrow> k \<in> live_ids s \<Longrightarrow> k < next_id s"
  by (auto simp: wf_tracker_def live_ids_def)

lemma ring_wf_live_below: "ring_wf s \<Longrightarrow> k \<in> ring_live_ids s \<Longrightarrow> k < ring_next_id s"
  by (auto simp: ring_wf_def ring_live_ids_def)

lemma ring_wf_distinct: "ring_wf s \<Longrightarrow> distinct (map fst (ring_tracks s))"
  unfolding ring_wf_def using strict_sorted_iff by blast

text \<open>
  C5. After any sequence of \<open>update\<close> calls on a new tracker (of either kind) the ids of
  the live tracks are pairwise distinct, and an id that was live at one point and is no
  longer live at a later point is not live at any point after that: no track created
  later gets it.
\<close>

theorem ids_distinct_never_reused:
  "(updates (IoUTracker thr mx) fs1 = Inr s1 \<and> updates s1 fs2 = Inr s2 \<and> updates s2 fs3 = Inr s3 \<longrightarrow>
      distinct (map fst (tracks s3)) \<and> (k \<in> live_ids s1 \<and> k \<notin> live_ids s2 \<longrightarrow> k \<notin> live_ids s3)) \<and>
   (r1 = ring_updates (Ring_IoUTracker thr mx) dss1 \<and> r2 = ring_updates r1 dss2 \<and> r3 = ring_updates r2 dss3 \<longrightarrow>
      distinct (map fst (ring_tracks r3)) \<and>
      (k \<in> ring_live_ids r1 \<and> k \<notin> ring_live_ids r2 \<longrightarrow> k \<notin> ring_live_ids r3))"
proof (intro conjI impI)
  assume a: "updates (IoUTracker thr mx) fs1 = Inr s1 \<and> updates s1 fs2 = Inr s2 \<and> updates s2 fs3 = Inr s3"
  have w0: "wf_tracker (IoUTracker thr mx)" using new_tracker_invariants by blast
  from updates_chain[OF w0] a have w1: "wf_tracker s1" by blast
  from updates_chain[OF w1] a have w2: "wf_tracker s2" and le: "next_id s1 \<le> next_id s2" by blast+
  from updates_chain[OF w2] a have w3: "wf_tracker s3"
    and ret: "\<And>k. k < next_id s2 \<Longrightarrow> k \<notin> live_ids s2 \<Longrightarrow> k \<notin> live_ids s3" by blast+
  from w3 show "distinct (map fst (tracks s3))" by (simp add: wf_tracker_def)
  assume k: "k \<in> live_ids s1 \<and> k \<notin> live_ids s2"
  with wf_live_below[OF w1] le have "k < next_id s2" by force
  with k ret show "k \<notin> live_ids s3" by blast
next
  assume a: "r1 = ring_updates (Ring_IoUTracker thr mx) dss1 \<and> r2 = ring_updates r1 dss2 \<and>
             r3 = ring_updates r2 dss3"
  have w0: "ring_wf (Ring_IoUTracker thr mx)" by (simp add: ring_wf_def Ring_IoUTracker_def)
  from ring_updates_chain[OF w0, of dss1] a have w1: "ring_wf r1" by blast
  from ring_updates_chain[OF w1, of dss2] a have w2: "ring_wf r2" and le: "ring_next_id r1 \<le> ring_next_id r2"
    by blast+
  from ring_updates_chain[OF w2, of dss3] a have w3: "ring_wf r3"
    and ret: "\<And>k. k < ring_next_id r2 \<Longrightarrow> k \<notin> ring_live_ids r2 \<Longrightarrow> k \<notin> ring_live_ids r3" by blast+
  from w3 show "distinct (map fst (ring_tracks r3))" by (rule ring_wf_distinct)
  assume k: "k \<in> ring_live_ids r1 \<and> k \<notin> ring_live_ids r2"
  with ring_wf_live_below[OF w1] le have "k < ring_next_id r2" by force
  with k ret show "k \<notin> ring_live_ids r3" by blast
qed

lemma side_example_run:
  "updates (IoUTracker (1 / 2) 0) [frame_a 0] = Inr (one_track 0)"
  "updates (one_track 0) [empty_frame 1] = Inr none_live"
  "updates none_live [frame_a 2] = Inr second_track"
proof -
  show "updates (IoUTracker (1 / 2) 0) [frame_a 0] = Inr (one_track 0)"
    using one_track_reached[of 0] by (simp add: frame_a_def update_frame_def)
  show "updates (one_track 0) [empty_frame 1] = Inr none_live"
    by (simp add: empty_frame_def update_frame_def update_def one_track_def age_track_def none_live_def)
  show "updates none_live [frame_a 2] = Inr second_track"
    by (simp add: frame_a_def update_frame_def update_def none_live_def one_track_def second_track_def
        new_track_def tracked_def box_a_def entry_a_def Let_def fun_upd_twist)
qed

lemma ring_example_run:
  "ring_updates (Ring_IoUTracker (1 / 2) 0) [[box_a]] = ring_one"
  "ring_updates ring_one [[]] = ring_none"
  "ring_updates ring_none [[box_a]] = ring_second"
proof -
  show "ring_updates (Ring_IoUTracker (1 / 2) 0) [[box_a]] = ring_one"
    by (simp add: ring_update_def Ring_IoUTracker_def ring_one_def ring_new_track_def)
  show "ring_updates ring_one [[]] = ring_none"
    by (simp add: ring_update_def ring_one_def ring_none_def ring_match_def ring_pairs_def
        ring_set_matched_def ring_miss_def ring_delete_missed_def Let_def)
  show "ring_updates ring_none [[box_a]] = ring_second"
    by (simp add: ring_update_def ring_none_def ring_second_def ring_new_track_def)
qed

text \<open>
  Track 1 is created, destroyed by a call without detections, and the track created by
  the next call gets id 2, with both trackers.
\<close>

theorem ids_distinct_never_reused_witness:
  "updates (IoUTracker (1 / 2) 0) [frame_a 0] = Inr (one_track 0) \<and>
   updates (one_track 0) [empty_frame 1] = Inr none_live \<and>
   updates none_live [frame_a 2] = Inr second_track \<and>
   1 \<in> live_ids (one_track 0) \<and> 1 \<notin> live_ids none_live \<and>
   1 \<notin> live_ids second_track \<and> live_ids second_track = {2} \<and>
   distinct (map fst (tracks second_track)) \<and>
   1 \<in> ring_live_ids (ring_updates (Ring_IoUTracker (1 / 2) 0) [[box_a]]) \<and>
   1 \<notin> ring_live_ids (ring_updates (ring_updates (Ring_IoUTracker (1 / 2) 0) [[box_a]]) [[]]) \<and>
   1 \<notin> ring_live_ids (ring_updates (ring_updates (ring_updates (Ring_IoUTracker (1 / 2) 0) [[box_a]]) [[]]) [[box_a]]) \<and>
   ring_updates (ring_updates (ring_updates (Ring_IoUTracker (1 / 2) 0) [[box_a]]) [[]]) [[box_a]] = ring_second"
proof -
  have a: "1 \<in> live_ids (one_track 0)" by (simp add: live_ids_def one_track_def)
  have b: "1 \<notin> live_ids none_live" by (simp add: live_ids_def none_live_def)
  have c: "live_ids second_track = {2}" by (simp add: live_ids_def second_track_def)
  have d: "1 \<in> ring_live_ids (ring_updates (Ring_IoUTracker (1 / 2) 0) [[box_a]])"
    by (simp only: ring_example_run) (simp add: ring_live_ids_def ring_one_def)
  have e: "1 \<notin> ring_live_ids (ring_updates (ring_updates (Ring_IoUTracker (1 / 2) 0) [[box_a]]) [[]])"
    by (simp only: ring_example_run) (simp add: ring_live_ids_def ring_none_def)
  note t = ids_distinct_never_reused[of "1 / 2" 0 "[frame_a 0]" "one_track 0" "[empty_frame 1]" none_live
      "[frame_a 2]" second_track 1
      "ring_updates (Ring_IoUTracker (1 / 2) 0) [[box_a]]" "[[box_a]]"
      "ring_updates (ring_updates (Ring_IoUTracker (1 / 2) 0) [[box_a]]) [[]]" "[[]]"
      "ring_updates (ring_updates (ring_updates (Ring_IoUTracker (1 / 2) 0) [[box_a]]) [[]]) [[box_a]]"
      "[[box_a]]"]
  from t side_example_run a b have f: "distinct (map fst (tracks second_track)) \<and> 1 \<notin> live_ids second_track"
    by blast
  from t d e have g: "1 \<notin> ring_live_ids (ring_updates (ring_updates (ring_updates
      (Ring_IoUTracker (1 / 2) 0) [[box_a]]) [[]]) [[box_a]])" by blast
  have h: "ring_updates (ring_updates (ring_updates (Ring_IoUTracker (1 / 2) 0) [[box_a]]) [[]]) [[box_a]] = ring_second"
    by (simp only: ring_example_run)
  from side_example_run a b c d e f g h show ?thesis by blast
qed

section \<open>The greedy pass does not depend on how unrelated ties are ordered\<close>

lemma accept_pairs_append: "accept_pairs (xs @ ys) acc = accept_pairs ys (accept_pairs xs acc)"
proof (induction xs arbitrary: acc)
  case Nil
  then show ?case by simp
next
  case (Cons p xs)
  obtain i tid where "p = (i, tid)" by (cases p)
  with Cons show ?case by simp
qed

lemma accept_pairs_mono: "set acc \<subseteq> set (accept_pairs xs acc)"
proof (induction xs arbitrary: acc)
  case Nil
  then show ?case by simp
next
  case (Cons p xs)
  obtain i tid where p: "p = (i, tid)" by (cases p)
  show ?case
  proof (cases "i \<in> fst ` set acc \<or> tid \<in> snd ` set acc")
    case True
    with Cons[of acc] p show ?thesis by simp
  next
    case False
    with Cons[of "acc @ [(i, tid)]"] p show ?thesis by auto
  qed
qed

lemma accept_pairs_subset: "set (accept_pairs xs acc) \<subseteq> set acc \<union> set xs"
proof (induction xs arbitrary: acc)
  case Nil
  then show ?case by simp
next
  case (Cons p xs)
  obtain i tid where p: "p = (i, tid)" by (cases p)
  show ?case
  proof (cases "i \<in> fst ` set acc \<or> tid \<in> snd ` set acc")
    case True
    with Cons[of acc] p show ?thesis by auto
  next
    case False
    with Cons[of "acc @ [(i, tid)]"] p show ?thesis by auto
  qed
qed

lemma accept_pairs_single:
  "set (accept_pairs [p] acc) = (if \<exists>q\<in>set acc. in_conflict p q then set acc else insert p (set acc))"
proof -
  obtain i tid where p: "p = (i, tid)" by (cases p)
  have "(i \<in> fst ` set acc \<or> tid \<in> snd ` set acc) \<longleftrightarrow> (\<exists>q\<in>set acc. in_conflict p q)"
    unfolding in_conflict_def p by force
  then show ?thesis using p by simp
qed

lemma accept_pairs_cong_set:
  "set acc = set acc' \<Longrightarrow> set (accept_pairs xs acc) = set (accept_pairs xs acc')"
proof (induction xs arbitrary: acc acc')
  case Nil
  then show ?case by simp
next
  case (Cons p xs)
  obtain i tid where p: "p = (i, tid)" by (cases p)
  show ?case
  proof (cases "i \<in> fst ` set acc \<or> tid \<in> snd ` set acc")
    case True
    with Cons.prems have "i \<in> fst ` set acc' \<or> tid \<in> snd ` set acc'" by simp
    with True Cons.IH[OF Cons.prems] p show ?thesis by simp
  next
    case False
    with Cons.prems have F': "\<not> (i \<in> fst ` set acc' \<or> tid \<in> snd ` set acc')" by simp
    from Cons.prems have "set (acc @ [(i, tid)]) = set (acc' @ [(i, tid)])" by simp
    from Cons.IH[OF this] False F' p show ?thesis by simp
  qed
qed

lemma accept_pairs_skip:
  assumes "\<forall>q\<in>set xs. \<not> in_conflict p q" and "set acc' = insert p (set acc)"
  shows "set (accept_pairs xs acc') = insert p (set (accept_pairs xs acc))"
  using assms
proof (induction xs arbitrary: acc acc')
  case Nil
  then show ?case by simp
next
  case (Cons x xs)
  obtain i tid where x: "x = (i, tid)" by (cases x)
  from Cons.prems(1) have nc: "\<not> in_conflict p x" and rest: "\<forall>q\<in>set xs. \<not> in_conflict p q" by simp_all
  have c: "(i \<in> fst ` set acc' \<or> tid \<in> snd ` set acc') \<longleftrightarrow> (i \<in> fst ` set acc \<or> tid \<in> snd ` set acc)"
    using nc Cons.prems(2) unfolding in_conflict_def x by auto
  show ?case
  proof (cases "i \<in> fst ` set acc \<or> tid \<in> snd ` set acc")
    case True
    with c Cons.IH[OF rest Cons.prems(2)] x show ?thesis by simp
  next
    case False
    from Cons.prems(2) have "set (acc' @ [(i, tid)]) = insert p (set (acc @ [(i, tid)]))" by auto
    from Cons.IH[OF rest this] False c x show ?thesis by simp
  qed
qed

lemma in_conflict_sym: "in_conflict p q \<longleftrightarrow> in_conflict q p"
  by (auto simp: in_conflict_def)

lemma accept_pairs_insert:
  assumes "\<forall>q\<in>set ys. \<not> in_conflict p q"
  shows "set (accept_pairs (xs @ p # ys) acc) = set (accept_pairs ((xs @ ys) @ [p]) acc)"
proof -
  let ?A = "accept_pairs xs acc"
  have l: "accept_pairs (xs @ p # ys) acc = accept_pairs ys (accept_pairs [p] ?A)"
    using accept_pairs_append[of xs "p # ys" acc] accept_pairs_append[of "[p]" ys ?A] by simp
  have r: "accept_pairs ((xs @ ys) @ [p]) acc = accept_pairs [p] (accept_pairs ys ?A)"
    by (simp only: accept_pairs_append)
  show ?thesis
  proof (cases "\<exists>q\<in>set ?A. in_conflict p q")
    case True
    then have "set (accept_pairs [p] ?A) = set ?A" by (simp add: accept_pairs_single)
    then have a: "set (accept_pairs ys (accept_pairs [p] ?A)) = set (accept_pairs ys ?A)"
      by (rule accept_pairs_cong_set)
    from True accept_pairs_mono[of ?A ys] have "\<exists>q\<in>set (accept_pairs ys ?A). in_conflict p q" by blast
    then have "set (accept_pairs [p] (accept_pairs ys ?A)) = set (accept_pairs ys ?A)"
      by (simp add: accept_pairs_single)
    with a l r show ?thesis by simp
  next
    case False
    then have s: "set (accept_pairs [p] ?A) = insert p (set ?A)" by (simp add: accept_pairs_single)
    from accept_pairs_skip[OF assms s]
    have a: "set (accept_pairs ys (accept_pairs [p] ?A)) = insert p (set (accept_pairs ys ?A))" .
    have "\<not> (\<exists>q\<in>set (accept_pairs ys ?A). in_conflict p q)"
    proof
      assume "\<exists>q\<in>set (accept_pairs ys ?A). in_conflict p q"
      then obtain q where q: "q \<in> set (accept_pairs ys ?A)" "in_conflict p q" by blast
      from q(1) accept_pairs_subset[of ys ?A] have "q \<in> set ?A \<or> q \<in> set ys" by blast
      with q(2) False assms show False by blast
    qed
    then have "set (accept_pairs [p] (accept_pairs ys ?A)) = insert p (set (accept_pairs ys ?A))"
      by (simp add: accept_pairs_single)
    with a l r show ?thesis by simp
  qed
qed

text \<open>
  Two orderings of the same candidates that never disagree on two pairs in conflict give
  the same accepted set.
\<close>

lemma accept_pairs_order:
  assumes "sorted_wrt R xs" and "sorted_wrt R' ys" and "distinct xs" and "distinct ys"
    and "set xs = set ys"
    and "\<And>p q. p \<in> set xs \<Longrightarrow> q \<in> set xs \<Longrightarrow> p \<noteq> q \<Longrightarrow> in_conflict p q \<Longrightarrow> R p q \<Longrightarrow> \<not> R' q p"
  shows "set (accept_pairs xs []) = set (accept_pairs ys [])"
  using assms
proof (induction xs arbitrary: ys rule: rev_induct)
  case Nil
  then show ?case by simp
next
  case (snoc p xs)
  from snoc.prems(5) have "p \<in> set ys" by auto
  then obtain ys1 ys2 where ys: "ys = ys1 @ p # ys2" by (meson split_list)
  from snoc.prems(3) have pxs: "p \<notin> set xs" and dxs: "distinct xs" by simp_all
  from snoc.prems(4) ys have pys: "p \<notin> set ys1" "p \<notin> set ys2" and dys: "distinct (ys1 @ ys2)"
    by auto
  from snoc.prems(5) pxs pys ys have seq: "set xs = set (ys1 @ ys2)" by auto
  from snoc.prems(1) have sx: "sorted_wrt R xs" and Rp: "\<forall>q\<in>set xs. R q p"
    by (simp_all add: sorted_wrt_append)
  from snoc.prems(2) ys have sy: "sorted_wrt R' (ys1 @ ys2)" and R'p: "\<forall>q\<in>set ys2. R' p q"
    by (auto simp: sorted_wrt_append)
  have ih: "set (accept_pairs xs []) = set (accept_pairs (ys1 @ ys2) [])"
  proof (rule snoc.IH[OF sx sy dxs dys seq])
    fix a b assume "a \<in> set xs" "b \<in> set xs" "a \<noteq> b" "in_conflict a b" "R a b"
    then show "\<not> R' b a" using snoc.prems(6)[of a b] by simp
  qed
  have nc: "\<forall>q\<in>set ys2. \<not> in_conflict p q"
  proof
    fix q assume q: "q \<in> set ys2"
    with seq have qx: "q \<in> set xs" by simp
    with pxs have ne: "q \<noteq> p" by blast
    show "\<not> in_conflict p q"
    proof
      assume "in_conflict p q"
      then have "in_conflict q p" by (simp add: in_conflict_sym)
      from snoc.prems(6)[of q p] qx ne this Rp have "\<not> R' p q" by simp
      with R'p q show False by blast
    qed
  qed
  have "set (accept_pairs ys []) = set (accept_pairs ((ys1 @ ys2) @ [p]) [])"
    unfolding ys using nc by (rule accept_pairs_insert)
  also have "\<dots> = set (accept_pairs [p] (accept_pairs (ys1 @ ys2) []))"
    by (simp only: accept_pairs_append)
  also have "\<dots> = set (accept_pairs [p] (accept_pairs xs []))"
    unfolding accept_pairs_single ih ..
  also have "\<dots> = set (accept_pairs (xs @ [p]) [])"
    by (simp only: accept_pairs_append)
  finally show ?case by simp
qed

section \<open>Sorted candidate lists\<close>

lemma concat_map_if: "concat (map (\<lambda>j. if P j then [g j] else []) ys) = map g (filter P ys)"
  by (induction ys) simp_all

lemma comprehension_product:
  "concat (map (\<lambda>i. concat (map (\<lambda>j. if P i j then [f i j] else []) ys)) xs) =
   map (\<lambda>(i, j). f i j) (filter (\<lambda>(i, j). P i j) (List.product xs ys))"
proof (induction xs)
  case Nil
  then show ?case by simp
next
  case (Cons x xs)
  have "map (\<lambda>(i, j). f i j) (filter (\<lambda>(i, j). P i j) (map (Pair x) ys)) = map (f x) (filter (P x) ys)"
    by (simp add: filter_map comp_def)
  with Cons show ?case by (simp add: concat_map_if)
qed

lemma sorted_wrt_product:
  assumes "sorted_wrt Rx xs" and "sorted_wrt Ry ys"
  shows "sorted_wrt (\<lambda>p q. Rx (fst p) (fst q) \<or> (fst p = fst q \<and> Ry (snd p) (snd q))) (List.product xs ys)"
  using assms(1)
proof (induction xs)
  case Nil
  then show ?case by simp
next
  case (Cons x xs)
  have a: "sorted_wrt (\<lambda>p q. Rx (fst p) (fst q) \<or> (fst p = fst q \<and> Ry (snd p) (snd q))) (map (Pair x) ys)"
    using assms(2) by (simp add: sorted_wrt_map sorted_wrt_mono_rel[of ys Ry])
  from Cons show ?case using a by (auto simp: sorted_wrt_append)
qed

lemma sorted_wrt_insort_key:
  fixes f :: "'a \<Rightarrow> 'k::linorder"
  assumes "sorted_wrt (\<lambda>a b. f a < f b \<or> (f a = f b \<and> Q a b)) ys" and "\<forall>y\<in>set ys. Q x y"
  shows "sorted_wrt (\<lambda>a b. f a < f b \<or> (f a = f b \<and> Q a b)) (insort_key f x ys)"
  using assms
proof (induction ys)
  case Nil
  then show ?case by simp
next
  case (Cons y ys)
  show ?case
  proof (cases "f x \<le> f y")
    case True
    have "f x < f z \<or> (f x = f z \<and> Q x z)" if "z \<in> set (y # ys)" for z
    proof -
      from that Cons.prems(1) have "f y \<le> f z" by auto
      with True have "f x \<le> f z" by simp
      with Cons.prems(2) that show ?thesis by (cases "f x = f z") auto
    qed
    with True Cons.prems(1) show ?thesis by simp
  next
    case False
    then have lt: "f y < f x" by simp
    from Cons.prems have "sorted_wrt (\<lambda>a b. f a < f b \<or> (f a = f b \<and> Q a b)) (insort_key f x ys)"
      by (intro Cons.IH) simp_all
    with False lt Cons.prems(1) show ?thesis by (auto simp: set_insort_key)
  qed
qed

text \<open>A stable sort of a list that is in some order breaks ties in that order.\<close>

lemma sorted_wrt_sort_key_stable:
  fixes f :: "'a \<Rightarrow> 'k::linorder"
  assumes "sorted_wrt Q xs"
  shows "sorted_wrt (\<lambda>a b. f a < f b \<or> (f a = f b \<and> Q a b)) (sort_key f xs)"
  using assms
proof (induction xs)
  case Nil
  then show ?case by simp
next
  case (Cons x xs)
  then have s: "sorted_wrt (\<lambda>a b. f a < f b \<or> (f a = f b \<and> Q a b)) (sort_key f xs)"
    and q: "\<forall>y\<in>set (sort_key f xs). Q x y" by simp_all
  from sorted_wrt_insort_key[OF s q] show ?case by simp
qed

lemma sorted_wrt_sort_key_le:
  fixes f :: "'a \<Rightarrow> 'k::linorder"
  shows "sorted_wrt (\<lambda>a b. f a \<le> f b) (sort_key f xs)"
  using sorted_sort_key[of f xs] by (simp add: sorted_wrt_map)

lemma ring_pairs_product:
  "ring_pairs thr m n k =
     sort_key (\<lambda>(v, i, j). - v)
       (map (\<lambda>(i, j). (m ! i ! j, i, j)) (filter (\<lambda>(i, j). m ! i ! j \<ge> thr) (List.product [0..<n] [0..<k])))"
  unfolding ring_pairs_def by (simp only: comprehension_product)

lemma ring_pairs_sorted:
  "sorted_wrt (\<lambda>a b. fst a > fst b \<or> (fst a = fst b \<and>
       (fst (snd a) < fst (snd b) \<or> (fst (snd a) = fst (snd b) \<and> snd (snd a) < snd (snd b)))))
     (ring_pairs thr m n k)"
proof -
  let ?Q = "\<lambda>a b :: real \<times> nat \<times> nat.
     fst (snd a) < fst (snd b) \<or> (fst (snd a) = fst (snd b) \<and> snd (snd a) < snd (snd b))"
  let ?cand = "map (\<lambda>(i, j). (m ! i ! j, i, j)) (filter (\<lambda>(i, j). m ! i ! j \<ge> thr) (List.product [0..<n] [0..<k]))"
  have "sorted_wrt (\<lambda>p q. fst p < fst q \<or> (fst p = fst q \<and> snd p < snd q)) (List.product [0..<n] [0..<k])"
    by (rule sorted_wrt_product) simp_all
  then have "sorted_wrt (\<lambda>p q. fst p < fst q \<or> (fst p = fst q \<and> snd p < snd q))
      (filter (\<lambda>(i, j). m ! i ! j \<ge> thr) (List.product [0..<n] [0..<k]))"
    by (rule sorted_wrt_filter)
  then have "sorted_wrt ?Q ?cand"
    by (simp add: sorted_wrt_map case_prod_beta)
  from sorted_wrt_sort_key_stable[OF this, of "\<lambda>(v, i, j). - v"]
  have "sorted_wrt (\<lambda>a b. (case a of (v, i, j) \<Rightarrow> - v) < (case b of (v, i, j) \<Rightarrow> - v) \<or>
          ((case a of (v, i, j) \<Rightarrow> - v) = (case b of (v, i, j) \<Rightarrow> - v) \<and> ?Q a b))
        (ring_pairs thr m n k)"
    unfolding ring_pairs_product .
  then show ?thesis
    by (rule sorted_wrt_mono_rel[rotated]) (auto simp: case_prod_beta)
qed

lemma ring_pairs_distinct: "distinct (ring_pairs thr m n k)"
proof -
  have "distinct (filter (\<lambda>(i, j). m ! i ! j \<ge> thr) (List.product [0..<n] [0..<k]))"
    by (intro distinct_filter distinct_product) simp_all
  moreover have "inj_on (\<lambda>(i, j). (m ! i ! j, i, j)) A" for A :: "(nat \<times> nat) set"
    by (auto simp: inj_on_def)
  ultimately show ?thesis
    unfolding ring_pairs_product by (simp add: distinct_map)
qed

section \<open>The RingScreen matching is the canonical policy\<close>

lemma ring_greedy_accept:
  "ring_greedy tids dets ps (map (\<lambda>(i, tid). (tid, dets ! i)) acc, map snd acc, map fst acc) =
     (let acc' = accept_pairs (map (\<lambda>(v, i, j). (i, tids ! j)) ps) acc
      in (map (\<lambda>(i, tid). (tid, dets ! i)) acc', map snd acc', map fst acc'))"
proof (induction ps arbitrary: acc)
  case Nil
  then show ?case by simp
next
  case (Cons p ps)
  obtain v i j where p: "p = (v, i, j)" by (cases p)
  show ?case
  proof (cases "i \<in> fst ` set acc \<or> tids ! j \<in> snd ` set acc")
    case True
    then have "tids ! j \<in> set (map snd acc) \<or> i \<in> set (map fst acc)" by auto
    with True Cons[of acc] p show ?thesis by (simp add: Let_def)
  next
    case False
    then have "\<not> (tids ! j \<in> set (map snd acc) \<or> i \<in> set (map fst acc))" by auto
    with False Cons[of "acc @ [(i, tids ! j)]"] p show ?thesis by (simp add: Let_def)
  qed
qed

lemma ring_match_accept:
  "ring_match s dets =
     (map (\<lambda>(i, tid). (tid, dets ! i)) (accept_pairs (code_list s dets) []),
      map snd (accept_pairs (code_list s dets) []),
      map fst (accept_pairs (code_list s dets) []))"
  using ring_greedy_accept[of "map fst (ring_tracks s)" dets _ "[]"]
  by (simp add: ring_match_def code_list_def Let_def)

lemma ring_matching_accept: "ring_matching s dets = accept_pairs (code_list s dets) []"
  by (simp add: ring_matching_def ring_match_accept zip_map_fst_snd)

lemma ring_boxes_keys: "map fst (ring_boxes s) = map fst (ring_tracks s)"
  by (simp add: ring_boxes_def case_prod_beta)

lemma ring_boxes_map_of:
  assumes "ring_wf s" and "(tid, b) \<in> set (ring_boxes s)"
  shows "map_of (ring_boxes s) tid = Some b"
proof -
  from assms(1) have "distinct (map fst (ring_boxes s))"
    unfolding ring_boxes_keys by (rule ring_wf_distinct)
  from map_of_is_SomeI[OF this assms(2)] show ?thesis .
qed

lemma ring_boxes_nth:
  assumes "j < length (ring_tracks s)"
  shows "(map fst (ring_tracks s) ! j, face_bbox (snd (ring_tracks s ! j))) \<in> set (ring_boxes s)"
proof -
  from assms have "ring_boxes s ! j = (fst (ring_tracks s ! j), face_bbox (snd (ring_tracks s ! j)))"
    by (simp add: ring_boxes_def case_prod_beta)
  moreover from assms have "ring_boxes s ! j \<in> set (ring_boxes s)"
    by (intro nth_mem) (simp add: ring_boxes_def)
  ultimately show ?thesis using assms by simp
qed

lemma ring_boxes_elem:
  assumes "(tid, b) \<in> set (ring_boxes s)"
  shows "\<exists>j<length (ring_tracks s). map fst (ring_tracks s) ! j = tid \<and> face_bbox (snd (ring_tracks s ! j)) = b"
proof -
  from assms obtain j where j: "j < length (ring_boxes s)" "ring_boxes s ! j = (tid, b)"
    by (auto simp: in_set_conv_nth)
  then have "j < length (ring_tracks s)" by (simp add: ring_boxes_def)
  moreover from this j(2) have "map fst (ring_tracks s) ! j = tid \<and> face_bbox (snd (ring_tracks s ! j)) = b"
    by (simp add: ring_boxes_def case_prod_beta)
  ultimately show ?thesis by blast
qed

text \<open>The entries of the sorted list of line 136, read as pairs with their IoU.\<close>

lemma code_pairs_elem:
  assumes "ring_wf s"
    and "(v, i, j) \<in> set (ring_pairs (ring_iou_threshold s)
          (map (\<lambda>d. map (\<lambda>(tid, t). ring_iou (face_bbox t) d) (ring_tracks s)) dets)
          (length dets) (length (ring_tracks s)))"
  shows "i < length dets \<and> j < length (ring_tracks s) \<and>
         v = pair_iou dets (ring_boxes s) (i, map fst (ring_tracks s) ! j) \<and>
         v = ring_iou (face_bbox (snd (ring_tracks s ! j))) (dets ! i) \<and> v \<ge> ring_iou_threshold s"
proof -
  from assms(2)[unfolded ring_pairs_set] have i: "i < length dets" and j: "j < length (ring_tracks s)"
    and v: "v = map (\<lambda>d. map (\<lambda>(tid, t). ring_iou (face_bbox t) d) (ring_tracks s)) dets ! i ! j"
    and ge0: "map (\<lambda>d. map (\<lambda>(tid, t). ring_iou (face_bbox t) d) (ring_tracks s)) dets ! i ! j
               \<ge> ring_iou_threshold s"
    by blast+
  from v ge0 have ge: "v \<ge> ring_iou_threshold s" by (simp only:)
  from v i j have v': "v = ring_iou (face_bbox (snd (ring_tracks s ! j))) (dets ! i)"
    by (simp add: case_prod_beta)
  from ring_boxes_map_of[OF assms(1) ring_boxes_nth[OF j]]
  have "pair_iou dets (ring_boxes s) (i, map fst (ring_tracks s) ! j) =
        ring_iou (face_bbox (snd (ring_tracks s ! j))) (dets ! i)"
    by (simp add: pair_iou_def)
  with i j v' ge show ?thesis by simp
qed

lemma spec_candidates_elem:
  "(v, tid, i) \<in> set (spec_candidates thr iou dets boxes) \<longleftrightarrow>
   (\<exists>b. (tid, b) \<in> set boxes \<and> i < length dets \<and> v = iou b (dets ! i) \<and> v \<ge> thr)"
proof -
  have "(v, tid, i) \<in> set (spec_candidates thr iou dets boxes) \<longleftrightarrow>
        (\<exists>x\<in>set boxes. fst x = tid \<and> i < length dets \<and> v = iou (snd x) (dets ! i) \<and> iou (snd x) (dets ! i) \<ge> thr)"
    unfolding spec_candidates_def by (simp add: case_prod_beta) blast
  also have "\<dots> \<longleftrightarrow> (\<exists>b. (tid, b) \<in> set boxes \<and> i < length dets \<and> v = iou b (dets ! i) \<and> v \<ge> thr)"
    by (metis fst_conv snd_conv prod.collapse)
  finally show ?thesis .
qed

lemma code_list_set:
  assumes "ring_wf s"
  shows "set (code_list s dets) =
     {(i, tid). i < length dets \<and> (\<exists>b. (tid, b) \<in> set (ring_boxes s) \<and>
                ring_iou b (dets ! i) \<ge> ring_iou_threshold s)}"
proof (intro set_eqI iffI)
  fix p assume "p \<in> set (code_list s dets)"
  then obtain v i j where p: "p = (i, map fst (ring_tracks s) ! j)"
    and m: "(v, i, j) \<in> set (ring_pairs (ring_iou_threshold s)
          (map (\<lambda>d. map (\<lambda>(tid, t). ring_iou (face_bbox t) d) (ring_tracks s)) dets)
          (length dets) (length (ring_tracks s)))"
    unfolding code_list_def by auto
  from code_pairs_elem[OF assms m] have i: "i < length dets" and j: "j < length (ring_tracks s)"
    and v: "v = ring_iou (face_bbox (snd (ring_tracks s ! j))) (dets ! i)"
    and ge: "v \<ge> ring_iou_threshold s" by blast+
  from v ge have "ring_iou (face_bbox (snd (ring_tracks s ! j))) (dets ! i) \<ge> ring_iou_threshold s"
    by (simp only:)
  with ring_boxes_nth[OF j] have "\<exists>b. (map fst (ring_tracks s) ! j, b) \<in> set (ring_boxes s) \<and>
                ring_iou b (dets ! i) \<ge> ring_iou_threshold s" by blast
  with i p
  show "p \<in> {(i, tid). i < length dets \<and> (\<exists>b. (tid, b) \<in> set (ring_boxes s) \<and>
                ring_iou b (dets ! i) \<ge> ring_iou_threshold s)}"
    by blast
next
  fix p assume "p \<in> {(i, tid). i < length dets \<and> (\<exists>b. (tid, b) \<in> set (ring_boxes s) \<and>
                ring_iou b (dets ! i) \<ge> ring_iou_threshold s)}"
  then obtain i tid b where p: "p = (i, tid)" and i: "i < length dets"
    and b: "(tid, b) \<in> set (ring_boxes s)" and ge: "ring_iou b (dets ! i) \<ge> ring_iou_threshold s"
    by blast
  from ring_boxes_elem[OF b] obtain j where j: "j < length (ring_tracks s)"
    "map fst (ring_tracks s) ! j = tid" "face_bbox (snd (ring_tracks s ! j)) = b" by blast
  let ?m = "map (\<lambda>d. map (\<lambda>(tid, t). ring_iou (face_bbox t) d) (ring_tracks s)) dets"
  from i j have "?m ! i ! j = ring_iou b (dets ! i)" by (simp add: case_prod_beta)
  with i j ge have "(ring_iou b (dets ! i), i, j) \<in> set (ring_pairs (ring_iou_threshold s) ?m
      (length dets) (length (ring_tracks s)))"
    by (simp add: ring_pairs_set)
  then have "(\<lambda>(v, i, j). (i, map fst (ring_tracks s) ! j)) (ring_iou b (dets ! i), i, j) \<in> set (code_list s dets)"
    unfolding code_list_def set_map by (rule imageI)
  with j p show "p \<in> set (code_list s dets)" by simp
qed

lemma spec_list_set:
  "set (spec_list thr dets boxes) =
     {(i, tid). i < length dets \<and> (\<exists>b. (tid, b) \<in> set boxes \<and> ring_iou b (dets ! i) \<ge> thr)}"
proof (intro set_eqI iffI)
  fix p assume "p \<in> set (spec_list thr dets boxes)"
  then obtain v tid i where "p = (i, tid)" "(v, tid, i) \<in> set (spec_candidates thr ring_iou dets boxes)"
    unfolding spec_list_def by auto
  then show "p \<in> {(i, tid). i < length dets \<and> (\<exists>b. (tid, b) \<in> set boxes \<and> ring_iou b (dets ! i) \<ge> thr)}"
    unfolding spec_candidates_elem by blast
next
  fix p assume "p \<in> {(i, tid). i < length dets \<and> (\<exists>b. (tid, b) \<in> set boxes \<and> ring_iou b (dets ! i) \<ge> thr)}"
  then obtain i tid b where p: "p = (i, tid)" and "i < length dets" "(tid, b) \<in> set boxes"
    "ring_iou b (dets ! i) \<ge> thr" by blast
  then have "(ring_iou b (dets ! i), tid, i) \<in> set (spec_candidates thr ring_iou dets boxes)"
    unfolding spec_candidates_elem by blast
  then have "(\<lambda>(v, tid, i). (i, tid)) (ring_iou b (dets ! i), tid, i) \<in> set (spec_list thr dets boxes)"
    unfolding spec_list_def set_map set_sort by (rule imageI)
  with p show "p \<in> set (spec_list thr dets boxes)" by simp
qed

lemma sorted_wrt_irrefl_distinct:
  assumes "sorted_wrt R xs" and "\<And>x. \<not> R x x"
  shows "distinct xs"
  using assms(1)
proof (induction xs)
  case Nil
  then show ?case by simp
next
  case (Cons x xs)
  then have "\<forall>y\<in>set xs. R x y" and "distinct xs" by simp_all
  with assms(2) show ?case by auto
qed

lemma code_list_sorted:
  assumes "ring_wf s"
  shows "sorted_wrt (code_before dets (ring_boxes s)) (code_list s dets)"
proof -
  let ?tids = "map fst (ring_tracks s)"
  let ?ps = "ring_pairs (ring_iou_threshold s)
          (map (\<lambda>d. map (\<lambda>(tid, t). ring_iou (face_bbox t) d) (ring_tracks s)) dets)
          (length dets) (length (ring_tracks s))"
  let ?T = "\<lambda>a b :: real \<times> nat \<times> nat. fst a > fst b \<or> (fst a = fst b \<and>
       (fst (snd a) < fst (snd b) \<or> (fst (snd a) = fst (snd b) \<and> snd (snd a) < snd (snd b))))"
  let ?g = "\<lambda>(v, i, j). (i, ?tids ! j)"
  from assms have srt: "sorted_wrt (<) ?tids" by (simp add: ring_wf_def)
  have step: "code_before dets (ring_boxes s) (?g a) (?g b)"
    if a: "a \<in> set ?ps" and b: "b \<in> set ?ps" and T: "?T a b" for a b
  proof -
    obtain v i j where a': "a = (v, i, j)" by (cases a)
    obtain v' i' j' where b': "b = (v', i', j')" by (cases b)
    from code_pairs_elem[OF assms a[unfolded a']]
    have ja: "j < length (ring_tracks s)" and va: "v = pair_iou dets (ring_boxes s) (i, ?tids ! j)"
      by blast+
    from code_pairs_elem[OF assms b[unfolded b']]
    have jb: "j' < length (ring_tracks s)" and vb: "v' = pair_iou dets (ring_boxes s) (i', ?tids ! j')"
      by blast+
    have lt: "?tids ! j < ?tids ! j'" if "j < j'"
      using sorted_wrt_nth_less[OF srt that] jb by simp
    from T have "v > v' \<or> (v = v' \<and> (i < i' \<or> (i = i' \<and> j < j')))"
      unfolding a' b' by simp
    with lt show ?thesis
      unfolding a' b' code_before_def va[symmetric] vb[symmetric] prod.case fst_conv snd_conv
      using va vb by blast
  qed
  have "sorted_wrt (\<lambda>a b. code_before dets (ring_boxes s) (?g a) (?g b)) ?ps"
    using step ring_pairs_sorted by (rule sorted_wrt_mono_rel)
  then show ?thesis unfolding code_list_def by (simp add: sorted_wrt_map)
qed

lemma code_before_irrefl: "\<not> code_before dets boxes p p"
  by (simp add: code_before_def)

lemma code_list_distinct: "ring_wf s \<Longrightarrow> distinct (code_list s dets)"
  using sorted_wrt_irrefl_distinct[OF code_list_sorted code_before_irrefl] .

lemma spec_candidates_product:
  "spec_candidates thr iou dets boxes =
     map (\<lambda>(p, i). (iou (snd p) (dets ! i), fst p, i))
       (filter (\<lambda>(p, i). iou (snd p) (dets ! i) \<ge> thr) (List.product boxes [0..<length dets]))"
proof -
  have "spec_candidates thr iou dets boxes =
      concat (map (\<lambda>p. concat (map (\<lambda>i. if iou (snd p) (dets ! i) \<ge> thr
          then [(iou (snd p) (dets ! i), fst p, i)] else []) [0..<length dets])) boxes)"
    unfolding spec_candidates_def case_prod_beta ..
  also have "\<dots> = map (\<lambda>(p, i). (iou (snd p) (dets ! i), fst p, i))
       (filter (\<lambda>(p, i). iou (snd p) (dets ! i) \<ge> thr) (List.product boxes [0..<length dets]))"
    by (rule comprehension_product)
  finally show ?thesis .
qed

lemma spec_candidates_distinct:
  assumes "distinct (map fst boxes)"
  shows "distinct (spec_candidates thr iou dets boxes)"
proof -
  from assms have "distinct boxes" by (simp add: distinct_map)
  then have d: "distinct (filter (\<lambda>(p, i). iou (snd p) (dets ! i) \<ge> thr) (List.product boxes [0..<length dets]))"
    by (intro distinct_filter distinct_product) simp_all
  have "inj_on (\<lambda>(p, i). (iou (snd p) (dets ! i), fst p, i)) (set boxes \<times> UNIV)"
  proof (rule inj_onI)
    fix x y :: "(nat \<times> bbox) \<times> nat"
    assume x: "x \<in> set boxes \<times> UNIV" and y: "y \<in> set boxes \<times> UNIV"
      and e: "(case x of (p, i) \<Rightarrow> (iou (snd p) (dets ! i), fst p, i)) =
              (case y of (p, i) \<Rightarrow> (iou (snd p) (dets ! i), fst p, i))"
    from e have k: "fst (fst x) = fst (fst y)" and i: "snd x = snd y" by (simp_all add: case_prod_beta)
    from x y have "(fst (fst x), snd (fst x)) \<in> set boxes" "(fst (fst y), snd (fst y)) \<in> set boxes"
      by auto
    with k eq_key_imp_eq_value[OF assms] have "snd (fst x) = snd (fst y)" by metis
    with k i show "x = y" by (simp add: prod_eq_iff)
  qed
  then have "inj_on (\<lambda>(p, i). (iou (snd p) (dets ! i), fst p, i))
      (set (filter (\<lambda>(p, i). iou (snd p) (dets ! i) \<ge> thr) (List.product boxes [0..<length dets])))"
    by (rule inj_on_subset) auto
  with d show ?thesis unfolding spec_candidates_product by (simp add: distinct_map)
qed

lemma spec_list_distinct:
  assumes "distinct (map fst boxes)"
  shows "distinct (spec_list thr dets boxes)"
proof -
  let ?c = "spec_candidates thr ring_iou dets boxes"
  have "inj_on (\<lambda>(v, tid, i). (i, tid)) (set ?c)"
  proof (rule inj_onI)
    fix x y assume x: "x \<in> set ?c" and y: "y \<in> set ?c"
      and e: "(case x of (v, tid, i) \<Rightarrow> (i, tid)) = (case y of (v, tid, i) \<Rightarrow> (i, tid))"
    obtain v tid i where x': "x = (v, tid, i)" by (cases x)
    obtain v' tid' i' where y': "y = (v', tid', i')" by (cases y)
    from e have t: "tid' = tid" and i: "i' = i" by (simp_all add: x' y')
    from x obtain b where b: "(tid, b) \<in> set boxes" "v = ring_iou b (dets ! i)"
      unfolding x' spec_candidates_elem by blast
    from y obtain b' where b': "(tid, b') \<in> set boxes" "v' = ring_iou b' (dets ! i)"
      unfolding y' t i spec_candidates_elem by blast
    from eq_key_imp_eq_value[OF assms b(1) b'(1)] b(2) b'(2) have "v = v'" by simp
    with t i show "x = y" by (simp add: x' y')
  qed
  with spec_candidates_distinct[OF assms, of thr ring_iou dets]
  show ?thesis unfolding spec_list_def by (simp add: distinct_map)
qed

lemma spec_list_sorted:
  assumes "distinct (map fst boxes)"
  shows "sorted_wrt (spec_before dets boxes) (spec_list thr dets boxes)"
proof -
  let ?c = "sort_key (\<lambda>(v, tid, i). (- v, tid, i)) (spec_candidates thr ring_iou dets boxes)"
  let ?h = "\<lambda>(v, tid, i). (i, tid)"
  have step: "spec_before dets boxes (?h a) (?h b)"
    if a: "a \<in> set ?c" and b: "b \<in> set ?c"
      and le: "(case a of (v, tid, i) \<Rightarrow> (- v, tid, i)) \<le> (case b of (v, tid, i) \<Rightarrow> (- v, tid, i))"
    for a b :: "real \<times> nat \<times> nat"
  proof -
    obtain v tid i where a': "a = (v, tid, i)" by (cases a)
    obtain v' tid' i' where b': "b = (v', tid', i')" by (cases b)
    from a obtain x where x: "(tid, x) \<in> set boxes" "v = ring_iou x (dets ! i)"
      unfolding a' set_sort spec_candidates_elem by blast
    from b obtain y where y: "(tid', y) \<in> set boxes" "v' = ring_iou y (dets ! i')"
      unfolding b' set_sort spec_candidates_elem by blast
    from map_of_is_SomeI[OF assms x(1)] x(2) have va: "pair_iou dets boxes (i, tid) = v"
      by (simp add: pair_iou_def)
    from map_of_is_SomeI[OF assms y(1)] y(2) have vb: "pair_iou dets boxes (i', tid') = v'"
      by (simp add: pair_iou_def)
    from le have "v > v' \<or> (v = v' \<and> (tid < tid' \<or> (tid = tid' \<and> i \<le> i')))"
      unfolding a' b' by auto
    then show ?thesis unfolding a' b' spec_before_def prod.case va vb fst_conv snd_conv .
  qed
  have "sorted_wrt (\<lambda>a b. spec_before dets boxes (?h a) (?h b)) ?c"
    using step sorted_wrt_sort_key_le by (rule sorted_wrt_mono_rel)
  then show ?thesis unfolding spec_list_def by (simp add: sorted_wrt_map)
qed

text \<open>The two orders agree on pairs in conflict.\<close>

lemma orders_agree_on_conflicts:
  assumes "p \<noteq> q" and "in_conflict p q" and "code_before dets boxes p q"
  shows "\<not> spec_before dets boxes q p"
  using assms unfolding in_conflict_def code_before_def spec_before_def
  by (cases p; cases q) auto

subsection \<open>The matching of the RingScreen tracker is the canonical one\<close>

lemma accept_pairs_one_to_one:
  assumes "distinct (map fst acc)" and "distinct (map snd acc)"
  shows "distinct (map fst (accept_pairs ps acc)) \<and> distinct (map snd (accept_pairs ps acc))"
  using assms
proof (induction ps acc rule: accept_pairs.induct)
  case (1 accepted)
  then show ?case by simp
next
  case (2 i tid ps accepted)
  show ?case
  proof (cases "i \<in> fst ` set accepted \<or> tid \<in> snd ` set accepted")
    case True
    with 2 show ?thesis by simp
  next
    case False
    with 2(3,4) have "distinct (map fst (accepted @ [(i, tid)]))" "distinct (map snd (accepted @ [(i, tid)]))"
      by auto
    from 2(2)[OF False this] False show ?thesis by simp
  qed
qed

lemma ring_new_loop_prefix:
  assumes "fold (\<lambda>(idx, d) st. if idx \<in> set used_d then st else ring_new_track d st) xs (trks, nid, results)
           = (trks', nid', results')"
  shows "take (length results) results' = results"
  using assms
proof (induction xs arbitrary: trks nid results)
  case Nil
  then show ?case by simp
next
  case (Cons x xs)
  obtain idx d where x: "x = (idx, d)" by (cases x)
  show ?case
  proof (cases "idx \<in> set used_d")
    case True
    with Cons.prems x have "fold (\<lambda>(idx, d) st. if idx \<in> set used_d then st else ring_new_track d st) xs
        (trks, nid, results) = (trks', nid', results')" by simp
    from Cons.IH[OF this] show ?thesis .
  next
    case False
    with Cons.prems x have "fold (\<lambda>(idx, d) st. if idx \<in> set used_d then st else ring_new_track d st) xs
        (AList.update nid \<lparr>face_bbox = d, missed = 0\<rparr> trks, nid + 1, results @ [(nid, d)]) = (trks', nid', results')"
      by (simp add: ring_new_track_def)
    from Cons.IH[OF this] have "take (length results + 1) results' = results @ [(nid, d)]" by simp
    then have "take (length results) (take (length results + 1) results') = take (length results) (results @ [(nid, d)])"
      by simp
    then show ?thesis by (simp add: min_def)
  qed
qed

lemma spec_canonical_matching_ring:
  "spec_canonical_matching thr ring_iou dets boxes = accept_pairs (spec_list thr dets boxes) []"
  by (simp add: spec_canonical_matching_def spec_list_def)

lemma ring_update_results_prefix:
  assumes "ring_tracks s \<noteq> []"
  shows "take (length (ring_matching s dets)) (fst (ring_update s dets)) =
         map (\<lambda>(i, tid). (tid, dets ! i)) (ring_matching s dets)"
proof -
  define acc where "acc = accept_pairs (code_list s dets) []"
  define res where "res = map (\<lambda>(i, tid). (tid, dets ! i)) acc"
  have m: "ring_match s dets = (res, map snd acc, map fst acc)"
    unfolding res_def acc_def by (rule ring_match_accept)
  define r where "r = fold (\<lambda>(idx, d) st. if idx \<in> set (map fst acc) then st else ring_new_track d st)
            (zip [0..<length dets] dets) (ring_set_matched res (ring_tracks s), ring_next_id s, res)"
  obtain trks2 nid res' where r: "r = (trks2, nid, res')" by (cases r)
  from assms have ne: "map fst (ring_tracks s) \<noteq> []" by simp
  from ring_update_live[OF ne m r[unfolded r_def]] have "fst (ring_update s dets) = res'" by simp
  moreover from ring_new_loop_prefix[OF r[unfolded r_def]] have "take (length res) res' = res" .
  moreover have "ring_matching s dets = acc" unfolding acc_def by (rule ring_matching_accept)
  moreover have "length res = length acc" by (simp add: res_def)
  ultimately show ?thesis by (simp add: res_def)
qed

text \<open>
  C1, as amended. In a call of the RingScreen \<open>IoUTracker.update\<close> on a well-formed
  tracker with at least one live track, the set of matched (detection, track) pairs is
  the set the fixed policy yields for the boxes of the live tracks: all pairs whose IoU
  is at least the threshold, sorted by IoU descending (ties by track id, then by
  detection), accepted greedily when neither the detection nor the track is claimed.
  The assignment is one to one, and the matched pairs are the first entries of the list
  the call returns. The code orders ties by detection and then by track; the accepted set
  is the same.
\<close>

theorem ring_matching_is_canonical:
  assumes "ring_wf s" and "ring_tracks s \<noteq> []"
  shows "set (ring_matching s dets) =
           set (spec_canonical_matching (ring_iou_threshold s) ring_iou dets (ring_boxes s)) \<and>
         distinct (map fst (ring_matching s dets)) \<and> distinct (map snd (ring_matching s dets)) \<and>
         take (length (ring_matching s dets)) (fst (ring_update s dets)) =
           map (\<lambda>(i, tid). (tid, dets ! i)) (ring_matching s dets)"
proof -
  let ?thr = "ring_iou_threshold s"
  let ?boxes = "ring_boxes s"
  from assms(1) have dk: "distinct (map fst ?boxes)"
    unfolding ring_boxes_keys by (rule ring_wf_distinct)
  have sets: "set (code_list s dets) = set (spec_list ?thr dets ?boxes)"
    unfolding code_list_set[OF assms(1)] spec_list_set ..
  have agree: "\<not> spec_before dets ?boxes q p"
    if "p \<in> set (code_list s dets)" "q \<in> set (code_list s dets)" "p \<noteq> q" "in_conflict p q"
       "code_before dets ?boxes p q" for p q
    using that(3-5) by (rule orders_agree_on_conflicts)
  have "set (accept_pairs (code_list s dets) []) = set (accept_pairs (spec_list ?thr dets ?boxes) [])"
    using code_list_sorted[OF assms(1)] spec_list_sorted[OF dk] code_list_distinct[OF assms(1)]
      spec_list_distinct[OF dk] sets agree
    by (rule accept_pairs_order)
  then have a: "set (ring_matching s dets) = set (spec_canonical_matching ?thr ring_iou dets ?boxes)"
    unfolding ring_matching_accept spec_canonical_matching_ring .
  have b: "distinct (map fst (ring_matching s dets)) \<and> distinct (map snd (ring_matching s dets))"
    unfolding ring_matching_accept by (rule accept_pairs_one_to_one) simp_all
  from a b ring_update_results_prefix[OF assms(2)] show ?thesis by blast
qed

lemma ring_one_wf: "ring_wf ring_one"
  by (simp add: ring_wf_def ring_one_def)

lemma ring_one_matching: "ring_matching ring_one [box_six, box_nine] = [(1, 1)]"
  by (simp add: ring_matching_def ring_match_def ring_pairs_def ring_one_def ring_iou_def
      box_a_def box_six_def box_nine_def Let_def)

text \<open>
  The tracker holds track 1 with the box (0, 0, 10, 10); the detections overlap it by 0.6
  and by 0.9. The pair of the greater IoU is the one matched: detection 1 with track 1.
\<close>

theorem ring_matching_is_canonical_witness:
  "ring_wf ring_one \<and> ring_tracks ring_one \<noteq> [] \<and>
   ring_matching ring_one [box_six, box_nine] = [(1, 1)] \<and>
   set (spec_canonical_matching (ring_iou_threshold ring_one) ring_iou [box_six, box_nine] (ring_boxes ring_one))
     = {(1, 1)} \<and>
   take 1 (fst (ring_update ring_one [box_six, box_nine])) = [(1, box_nine)]"
proof -
  have ne: "ring_tracks ring_one \<noteq> []" by (simp add: ring_one_def)
  from ring_matching_is_canonical[OF ring_one_wf ne, of "[box_six, box_nine]"]
  have "{(1, 1)} = set (spec_canonical_matching (ring_iou_threshold ring_one) ring_iou [box_six, box_nine]
            (ring_boxes ring_one))"
    and "take 1 (fst (ring_update ring_one [box_six, box_nine])) = [(1, box_nine)]"
    unfolding ring_one_matching by simp_all
  with ring_one_wf ne ring_one_matching show ?thesis by simp
qed

text \<open>
  C1 as stated fails for the SideScreen tracker, which settles the detections one by one
  in the order given: with the one track (0, 0, 10, 10) and threshold 0.5, detection 0
  (IoU 0.6) takes track 1 and detection 1 (IoU 0.9) gets the new id 2, while the policy
  pairs detection 1 with track 1.
\<close>

theorem side_matching_counterexample:
  "map_sum id fst (update 0 (one_track 0) [box_six, box_nine] [0, 0] [9 / 10, 9 / 10]) =
     Inr [(0, 0, 10, 6, 1, 0, 9 / 10), (0, 0, 10, 9, 2, 0, 9 / 10)] \<and>
   calculate_iou box_six box_a = 6 / 10 \<and> calculate_iou box_nine box_a = 9 / 10 \<and>
   spec_canonical_matching (iou_threshold (one_track 0)) calculate_iou [box_six, box_nine] [(1, box_a)] = [(1, 1)]"
proof -
  have a: "calculate_iou box_six box_a = 6 / 10" "calculate_iou box_nine box_a = 9 / 10"
    "calculate_iou box_a box_six = 6 / 10" "calculate_iou box_a box_nine = 9 / 10"
    by (simp_all add: calculate_iou_def box_a_def box_six_def box_nine_def Let_def)
  have b: "spec_canonical_matching (iou_threshold (one_track 0)) calculate_iou [box_six, box_nine] [(1, box_a)]
      = [(1, 1)]"
    by (simp add: spec_canonical_matching_def spec_candidates_def one_track_def a)
  have c: "map_sum id fst (update 0 (one_track 0) [box_six, box_nine] [0, 0] [9 / 10, 9 / 10]) =
     Inr [(0, 0, 10, 6, 1, 0, 9 / 10), (0, 0, 10, 9, 2, 0, 9 / 10)]"
    by (simp add: update_def one_track_def match_detection_def new_track_def tracked_def
        a[unfolded box_six_def box_nine_def] Let_def box_six_def box_nine_def)
  from a b c show ?thesis by simp
qed

section \<open>Track continuity\<close>

subsection \<open>One detection, SideScreen\<close>

lemma best_track_keep:
  "\<forall>v\<in>set row. v \<le> mi \<Longrightarrow> best_track [] row t0 mi b = b"
  by (induction row arbitrary: t0) simp_all

text \<open>
  With no column claimed, the search returns the column whose entry is above the
  threshold and above every other entry.
\<close>

lemma best_track_unique_max:
  assumes "j0 < length row" and "row ! j0 > mi" and "\<forall>j<length row. j \<noteq> j0 \<longrightarrow> row ! j < row ! j0"
  shows "best_track [] row t0 mi b = Some (t0 + j0)"
  using assms
proof (induction row arbitrary: t0 mi b j0)
  case Nil
  then show ?case by simp
next
  case (Cons v row)
  show ?case
  proof (cases j0)
    case 0
    with Cons.prems(2) have v: "v > mi" by simp
    have "\<forall>w\<in>set row. w \<le> v"
    proof
      fix w assume "w \<in> set row"
      then obtain i where i: "i < length row" "row ! i = w" by (auto simp: in_set_conv_nth)
      with Cons.prems(3)[rule_format, of "Suc i"] 0 show "w \<le> v" by simp
    qed
    from best_track_keep[OF this] v 0 show ?thesis by simp
  next
    case (Suc j)
    with Cons.prems have j: "j < length row" and gt: "row ! j > mi" by simp_all
    from Cons.prems(3)[rule_format, of 0] Suc have lt: "v < row ! j" by simp
    have others: "\<forall>i<length row. i \<noteq> j \<longrightarrow> row ! i < row ! j"
    proof (intro allI impI)
      fix i assume "i < length row" "i \<noteq> j"
      with Cons.prems(3)[rule_format, of "Suc i"] Suc show "row ! i < row ! j" by simp
    qed
    show ?thesis
    proof (cases "v > mi")
      case True
      from Cons.IH[OF j lt others, of "Suc t0" "Some t0"] True Suc show ?thesis by simp
    next
      case False
      from Cons.IH[OF j gt others, of "Suc t0" b] False Suc show ?thesis by simp
    qed
  qed
qed

lemma update_single:
  assumes "update now s [B] (c # cls) (cf # confs) = Inr (res, s1)"
  shows "(single_choice s B = None \<longrightarrow>
            res = [tracked B (next_id s) c cf] \<and>
            tracks s1 = age_loop (max_missed_frames s) [] (zip [0..<length (tracks s)] (map fst (tracks s)))
               (AList.update (next_id s) \<lparr>bbox = B, missed_count = 0, class_id = c, conf = cf\<rparr> (tracks s))) \<and>
         (\<forall>j. single_choice s B = Some j \<longrightarrow>
            res = [tracked B (map fst (tracks s) ! j) c cf] \<and>
            tracks s1 = age_loop (max_missed_frames s) [j] (zip [0..<length (tracks s)] (map fst (tracks s)))
               (AList.update (map fst (tracks s) ! j)
                  \<lparr>bbox = B, missed_count = 0, class_id = c, conf = cf\<rparr> (tracks s)))"
proof (cases "tracks s = []")
  case True
  with assms show ?thesis
    by (auto simp: update_def Let_def new_track_def single_choice_def)
next
  case False
  define bt where "bt = best_track [] (map (\<lambda>(track_id, t). calculate_iou B (bbox t)) (tracks s)) 0
      (iou_threshold s) None"
  from False have sc: "single_choice s B = bt" by (simp add: single_choice_def bt_def)
  show ?thesis
  proof (cases bt)
    case None
    with assms False show ?thesis unfolding sc
      by (auto simp: update_def Let_def new_track_def match_detection_def bt_def[symmetric])
  next
    case (Some j)
    with assms False show ?thesis unfolding sc
      by (auto simp: update_def Let_def new_track_def match_detection_def bt_def[symmetric])
  qed
qed

lemma update_single_args:
  assumes "update now s [B] cls confs = Inr (res, s1)"
  shows "\<exists>c cls' cf confs'. cls = c # cls' \<and> confs = cf # confs'"
proof -
  from assms have "\<not> (length cls < 1 \<or> length confs < 1)"
    by (auto simp: update_def split: if_splits)
  then show ?thesis by (cases cls; cases confs) auto
qed

text \<open>After a call with the one detection \<open>B\<close> the track named in the result holds \<open>B\<close>.\<close>

lemma update_single_track:
  assumes wf: "wf_tracker s" and up: "update now s [B] (c # cls) (cf # confs) = Inr (res, s1)"
  shows "\<exists>t. res = [tracked B t c cf] \<and>
             map_of (tracks s1) t = Some \<lparr>bbox = B, missed_count = 0, class_id = c, conf = cf\<rparr>"
proof -
  define ks where "ks = map fst (tracks s)"
  define new where "new = \<lparr>bbox = B, missed_count = 0, class_id = c, conf = cf\<rparr>"
  from wf have d: "distinct ks" and below: "\<forall>k\<in>set ks. k < next_id s"
    by (simp_all add: wf_tracker_def ks_def)
  have len: "length (tracks s) = length ks" by (simp add: ks_def)
  note single = update_single[OF up, folded ks_def new_def, unfolded len]
  show ?thesis
  proof (cases "single_choice s B")
    case None
    with single have res: "res = [tracked B (next_id s) c cf]"
      and trks: "tracks s1 = age_loop (max_missed_frames s) [] (zip [0..<length ks] ks)
                    (AList.update (next_id s) new (tracks s))" by simp_all
    from below have "next_id s \<notin> set ks" by blast
    with age_loop_zip[OF d, of "[]" "max_missed_frames s" "AList.update (next_id s) new (tracks s)" "next_id s"]
    have "map_of (tracks s1) (next_id s) = Some new" unfolding trks by (simp add: update_conv')
    with res show ?thesis unfolding new_def by blast
  next
    case (Some j)
    with single have res: "res = [tracked B (ks ! j) c cf]"
      and trks: "tracks s1 = age_loop (max_missed_frames s) [j] (zip [0..<length ks] ks)
                    (AList.update (ks ! j) new (tracks s))" by simp_all
    from Some have "best_track [] (map (\<lambda>(track_id, t). calculate_iou B (bbox t)) (tracks s)) 0
        (iou_threshold s) None = Some j"
      by (simp add: single_choice_def split: if_splits)
    from best_track_Some[OF this] have j: "j < length ks" by (simp add: ks_def)
    then have m: "\<forall>i\<in>set [j]. i < length ks" by simp
    from age_loop_zip[OF d m, of "max_missed_frames s" "AList.update (ks ! j) new (tracks s)" "ks ! j"]
    have "map_of (tracks s1) (ks ! j) = Some new" unfolding trks by (simp add: update_conv')
    with res show ?thesis unfolding new_def by blast
  qed
qed

text \<open>
  A call with the one detection \<open>B'\<close> on a tracker in which the track \<open>t\<close> overlaps \<open>B'\<close>
  by more than the threshold and by more than every other track: the detection goes to
  \<open>t\<close>.
\<close>

lemma update_single_best:
  assumes wf: "wf_tracker s" and t: "map_of (tracks s) t = Some trk"
    and gt: "calculate_iou B' (bbox trk) > iou_threshold s"
    and others: "\<forall>(k, trk')\<in>set (tracks s). k \<noteq> t \<longrightarrow> calculate_iou B' (bbox trk') < calculate_iou B' (bbox trk)"
    and up: "update now s [B'] (c # cls) (cf # confs) = Inr (res, s')"
  shows "res = [tracked B' t c cf]"
proof -
  define row where "row = map (\<lambda>(track_id, t). calculate_iou B' (bbox t)) (tracks s)"
  from wf have d: "distinct (map fst (tracks s))" by (simp add: wf_tracker_def)
  from t have "(t, trk) \<in> set (tracks s)" by (rule map_of_SomeD)
  then obtain j0 where j0: "j0 < length (tracks s)" "tracks s ! j0 = (t, trk)"
    by (auto simp: in_set_conv_nth)
  then have ne: "tracks s \<noteq> []" by auto
  from j0 have r0: "row ! j0 = calculate_iou B' (bbox trk)" by (simp add: row_def)
  have lt: "\<forall>j<length row. j \<noteq> j0 \<longrightarrow> row ! j < row ! j0"
  proof (intro allI impI)
    fix j assume j: "j < length row" "j \<noteq> j0"
    then have jl: "j < length (tracks s)" by (simp add: row_def)
    obtain k trk' where e: "tracks s ! j = (k, trk')" by (cases "tracks s ! j")
    from j(2) jl j0(1) d have "map fst (tracks s) ! j \<noteq> map fst (tracks s) ! j0"
      by (simp add: nth_eq_iff_index_eq del: nth_map)
    with jl j0 e have "k \<noteq> t" by simp
    moreover from jl e have "(k, trk') \<in> set (tracks s)" by (metis nth_mem)
    ultimately have "calculate_iou B' (bbox trk') < calculate_iou B' (bbox trk)" using others by blast
    with jl e r0 show "row ! j < row ! j0" by (simp add: row_def)
  qed
  from j0(1) have jr: "j0 < length row" by (simp add: row_def)
  from gt r0 have "row ! j0 > iou_threshold s" by simp
  from best_track_unique_max[OF jr this lt, of 0 None] ne
  have "single_choice s B' = Some j0" by (simp add: single_choice_def row_def)
  with update_single[OF up] have "res = [tracked B' (map fst (tracks s) ! j0) c cf]" by blast
  with j0 show ?thesis by simp
qed

subsection \<open>One detection, RingScreen\<close>

lemma accept_pairs_same_detection:
  "\<forall>q\<in>set ps. fst q = i \<Longrightarrow> accept_pairs ps [(i, tid)] = [(i, tid)]"
proof (induction ps)
  case Nil
  then show ?case by simp
next
  case (Cons p ps)
  obtain i' tid' where p: "p = (i', tid')" by (cases p)
  with Cons show ?case by simp
qed

lemma accept_pairs_one_detection:
  assumes "\<forall>q\<in>set ps. fst q = i"
  shows "accept_pairs ps [] = (case ps of [] \<Rightarrow> [] | p # rest \<Rightarrow> [p])"
proof (cases ps)
  case Nil
  then show ?thesis by simp
next
  case (Cons p rest)
  obtain i' tid' where p: "p = (i', tid')" by (cases p)
  from assms Cons p have "i' = i" and "\<forall>q\<in>set rest. fst q = i" by simp_all
  with accept_pairs_same_detection[of rest i tid'] Cons p show ?thesis by simp
qed

lemma map_of_fold_ring_miss:
  "k \<in> set used_t \<or> k \<notin> set tids \<Longrightarrow> map_of (fold (ring_miss used_t) tids trks) k = map_of trks k"
proof (induction tids arbitrary: trks)
  case Nil
  then show ?case by simp
next
  case (Cons tid tids)
  from Cons.prems have k: "k \<in> set used_t \<or> k \<notin> set tids" by auto
  from Cons.prems have "tid \<in> set used_t \<or> tid \<noteq> k" by auto
  then have "map_of (ring_miss used_t tid trks) k = map_of trks k"
    by (auto simp: ring_miss_def update_conv' split: option.splits)
  with Cons.IH[OF k, of "ring_miss used_t tid trks"] show ?case by simp
qed

lemma map_of_ring_delete_missed:
  "map_of trks k = Some t \<Longrightarrow> missed t \<le> mx \<Longrightarrow> map_of (ring_delete_missed mx trks) k = Some t"
  unfolding ring_delete_missed_def
  by (induction trks) (auto split: if_splits)

lemma ring_boxes_iff:
  "(k, b) \<in> set (ring_boxes s) \<longleftrightarrow> (\<exists>trk. (k, trk) \<in> set (ring_tracks s) \<and> b = face_bbox trk)"
  unfolding ring_boxes_def by force

text \<open>
  A call with one detection on a tracker with live tracks: either no pair qualifies and
  the detection founds the track \<open>next_id\<close>, or the first pair of the sorted list is
  accepted and no other.
\<close>

lemma ring_update_single:
  assumes ne: "ring_tracks s \<noteq> []"
  shows "(accept_pairs (code_list s [B]) [] = [] \<longrightarrow>
           ring_update s [B] =
             ([(ring_next_id s, B)],
              s\<lparr>ring_tracks := ring_delete_missed (max_missed s)
                   (fold (ring_miss []) (map fst (ring_tracks s))
                      (AList.update (ring_next_id s) \<lparr>face_bbox = B, missed = 0\<rparr> (ring_tracks s))),
                ring_next_id := ring_next_id s + 1\<rparr>)) \<and>
         (\<forall>tid. accept_pairs (code_list s [B]) [] = [(0, tid)] \<longrightarrow>
           ring_update s [B] =
             ([(tid, B)],
              s\<lparr>ring_tracks := ring_delete_missed (max_missed s)
                   (fold (ring_miss [tid]) (map fst (ring_tracks s))
                      (AList.update tid \<lparr>face_bbox = B, missed = 0\<rparr> (ring_tracks s))),
                ring_next_id := ring_next_id s\<rparr>))"
proof (intro conjI allI impI)
  from ne have n: "map fst (ring_tracks s) \<noteq> []" by simp
  {
    assume a: "accept_pairs (code_list s [B]) [] = []"
    have m: "ring_match s [B] = ([], [], [])" unfolding ring_match_accept a by simp
    have f: "fold (\<lambda>(idx, d) st. if idx \<in> set [] then st else ring_new_track d st)
            (zip [0..<length [B]] [B]) (ring_set_matched [] (ring_tracks s), ring_next_id s, [])
         = (AList.update (ring_next_id s) \<lparr>face_bbox = B, missed = 0\<rparr> (ring_tracks s),
            ring_next_id s + 1, [(ring_next_id s, B)])"
      by (simp add: ring_set_matched_def ring_new_track_def)
    from ring_update_live[OF n m f]
    show "ring_update s [B] =
             ([(ring_next_id s, B)],
              s\<lparr>ring_tracks := ring_delete_missed (max_missed s)
                   (fold (ring_miss []) (map fst (ring_tracks s))
                      (AList.update (ring_next_id s) \<lparr>face_bbox = B, missed = 0\<rparr> (ring_tracks s))),
                ring_next_id := ring_next_id s + 1\<rparr>)" .
  }
  {
    fix tid assume a: "accept_pairs (code_list s [B]) [] = [(0, tid)]"
    have m: "ring_match s [B] = ([(tid, B)], [tid], [0])" unfolding ring_match_accept a by simp
    have f: "fold (\<lambda>(idx, d) st. if idx \<in> set [0] then st else ring_new_track d st)
            (zip [0..<length [B]] [B]) (ring_set_matched [(tid, B)] (ring_tracks s), ring_next_id s, [(tid, B)])
         = (AList.update tid \<lparr>face_bbox = B, missed = 0\<rparr> (ring_tracks s), ring_next_id s, [(tid, B)])"
      by (simp add: ring_set_matched_def)
    from ring_update_live[OF n m f]
    show "ring_update s [B] =
             ([(tid, B)],
              s\<lparr>ring_tracks := ring_delete_missed (max_missed s)
                   (fold (ring_miss [tid]) (map fst (ring_tracks s))
                      (AList.update tid \<lparr>face_bbox = B, missed = 0\<rparr> (ring_tracks s))),
                ring_next_id := ring_next_id s\<rparr>)" .
  }
qed

lemma code_list_one_detection:
  assumes "ring_wf s"
  shows "\<forall>q\<in>set (code_list s [B]). fst q = 0"
  unfolding code_list_set[OF assms] by auto

text \<open>After a call with the one detection \<open>B\<close> the track named in the result holds \<open>B\<close>.\<close>

lemma ring_update_single_track:
  assumes wf: "ring_wf s" and up: "ring_update s [B] = (res, s1)"
  shows "\<exists>t. res = [(t, B)] \<and> map_of (ring_tracks s1) t = Some \<lparr>face_bbox = B, missed = 0\<rparr>"
proof (cases "ring_tracks s = []")
  case True
  with up have "res = [(ring_next_id s, B)]"
    and "ring_tracks s1 = [(ring_next_id s, \<lparr>face_bbox = B, missed = 0\<rparr>)]"
    by (auto simp: ring_update_def ring_new_track_def)
  then show ?thesis by simp
next
  case False
  define new where "new = \<lparr>face_bbox = B, missed = 0\<rparr>"
  define acc where "acc = accept_pairs (code_list s [B]) []"
  have fresh: "missed new \<le> max_missed s" by (simp add: new_def)
  note single = ring_update_single[OF False, of B, folded new_def acc_def]
  from accept_pairs_one_detection[OF code_list_one_detection[OF wf, of B]]
  have shape: "acc = (case code_list s [B] of [] \<Rightarrow> [] | p # rest \<Rightarrow> [p])" unfolding acc_def .
  show ?thesis
  proof (cases "code_list s [B]")
    case Nil
    with shape have "acc = []" by simp
    with single up have res: "res = [(ring_next_id s, B)]"
      and trks: "ring_tracks s1 = ring_delete_missed (max_missed s)
                   (fold (ring_miss []) (map fst (ring_tracks s))
                      (AList.update (ring_next_id s) new (ring_tracks s)))" by auto
    from wf have "ring_next_id s \<notin> set (map fst (ring_tracks s))" unfolding ring_wf_def by blast
    then have "map_of (fold (ring_miss []) (map fst (ring_tracks s))
                      (AList.update (ring_next_id s) new (ring_tracks s))) (ring_next_id s) = Some new"
      by (simp add: map_of_fold_ring_miss update_conv')
    from map_of_ring_delete_missed[OF this fresh] res show ?thesis unfolding trks new_def by blast
  next
    case (Cons p rest)
    from code_list_one_detection[OF wf, of B] Cons obtain tid where p: "p = (0, tid)"
      by (cases p) auto
    with shape Cons have "acc = [(0, tid)]" by simp
    with single up have res: "res = [(tid, B)]"
      and trks: "ring_tracks s1 = ring_delete_missed (max_missed s)
                   (fold (ring_miss [tid]) (map fst (ring_tracks s))
                      (AList.update tid new (ring_tracks s)))" by auto
    have "map_of (fold (ring_miss [tid]) (map fst (ring_tracks s))
                      (AList.update tid new (ring_tracks s))) tid = Some new"
      by (simp add: map_of_fold_ring_miss update_conv')
    from map_of_ring_delete_missed[OF this fresh] res show ?thesis unfolding trks new_def by blast
  qed
qed

lemma code_list_mem:
  assumes "ring_wf s"
  shows "(i, tid) \<in> set (code_list s dets) \<longleftrightarrow>
         i < length dets \<and> (\<exists>b. (tid, b) \<in> set (ring_boxes s) \<and> ring_iou b (dets ! i) \<ge> ring_iou_threshold s)"
  unfolding code_list_set[OF assms] by (simp only: mem_Collect_eq prod.case)

text \<open>
  A call with the one detection \<open>B'\<close> on a tracker in which the track \<open>t\<close> overlaps \<open>B'\<close>
  by at least the threshold and by more than every other track: the detection goes to
  \<open>t\<close>.
\<close>

lemma ring_update_single_best:
  assumes wf: "ring_wf s" and t: "map_of (ring_tracks s) t = Some trk"
    and ge: "ring_iou (face_bbox trk) B' \<ge> ring_iou_threshold s"
    and others: "\<forall>(k, trk')\<in>set (ring_tracks s). k \<noteq> t \<longrightarrow>
                   ring_iou (face_bbox trk') B' < ring_iou (face_bbox trk) B'"
  shows "fst (ring_update s [B']) = [(t, B')]"
proof -
  let ?boxes = "ring_boxes s"
  from t have mem: "(t, trk) \<in> set (ring_tracks s)" by (rule map_of_SomeD)
  then have ne: "ring_tracks s \<noteq> []" by auto
  from mem have tb: "(t, face_bbox trk) \<in> set ?boxes" unfolding ring_boxes_iff by blast
  have "ring_iou (face_bbox trk) ([B'] ! 0) \<ge> ring_iou_threshold s" using ge by simp
  with tb have tin: "(0, t) \<in> set (code_list s [B'])" unfolding code_list_mem[OF wf] by blast
  from ring_boxes_map_of[OF wf tb] have vt: "pair_iou [B'] ?boxes (0, t) = ring_iou (face_bbox trk) B'"
    by (simp add: pair_iou_def)
  have less: "pair_iou [B'] ?boxes q < pair_iou [B'] ?boxes (0, t)"
    if q: "q \<in> set (code_list s [B'])" "q \<noteq> (0, t)" for q
  proof -
    obtain i k where qk: "q = (i, k)" by (cases q)
    from q(1) obtain b where b: "i = 0" "(k, b) \<in> set ?boxes"
      unfolding qk code_list_mem[OF wf] by auto
    from b(2) obtain trk' where trk': "(k, trk') \<in> set (ring_tracks s)" "b = face_bbox trk'"
      unfolding ring_boxes_iff by blast
    from q(2) qk b(1) have "k \<noteq> t" by simp
    with others trk'(1) have "ring_iou (face_bbox trk') B' < ring_iou (face_bbox trk) B'" by blast
    moreover from ring_boxes_map_of[OF wf b(2)] trk'(2) b(1)
    have "pair_iou [B'] ?boxes (i, k) = ring_iou (face_bbox trk') B'" by (simp add: pair_iou_def)
    ultimately show ?thesis unfolding qk vt by simp
  qed
  from tin obtain p rest where c: "code_list s [B'] = p # rest" by (cases "code_list s [B']") auto
  have "p = (0, t)"
  proof (rule ccontr)
    assume n: "p \<noteq> (0, t)"
    with tin c have "(0, t) \<in> set rest" by simp
    with code_list_sorted[OF wf, of "[B']"] c have "code_before [B'] ?boxes p (0, t)" by simp
    then have "pair_iou [B'] ?boxes p \<ge> pair_iou [B'] ?boxes (0, t)" unfolding code_before_def by auto
    moreover from less[of p] c n have "pair_iou [B'] ?boxes p < pair_iou [B'] ?boxes (0, t)" by simp
    ultimately show False by simp
  qed
  with accept_pairs_one_detection[OF code_list_one_detection[OF wf, of B']] c
  have "accept_pairs (code_list s [B']) [] = [(0, t)]" by simp
  with ring_update_single[OF ne, of B'] show ?thesis by simp
qed

text \<open>
  C4, as amended. A call of \<open>update\<close> with the single detection \<open>B\<close> returns one
  tracked object, with some id \<open>t\<close>. When the next call has the single detection \<open>B'\<close>
  and no other live track overlaps \<open>B'\<close> as much as \<open>B\<close> does, it returns the same id
  if, for the RingScreen tracker, the IoU of \<open>B\<close> and \<open>B'\<close> is at least the threshold, and
  if, for the SideScreen tracker, that IoU is greater than the threshold. The IoU is
  written with the arguments in the order of the call in the code.
\<close>

theorem track_continuity:
  "(ring_wf r \<and> ring_update r [B] = (rres1, r1) \<and> ring_update r1 [B'] = (rres2, r2) \<and>
    ring_iou B B' \<ge> ring_iou_threshold r \<and>
    (\<forall>(k, trk)\<in>set (ring_tracks r1). k \<notin> fst ` set rres1 \<longrightarrow> ring_iou (face_bbox trk) B' < ring_iou B B') \<longrightarrow>
      (\<exists>t. rres1 = [(t, B)] \<and> rres2 = [(t, B')])) \<and>
   (wf_tracker s \<and> update now s [B] cls confs = Inr (res1, s1) \<and>
    update now' s1 [B'] cls' confs' = Inr (res2, s2) \<and>
    calculate_iou B' B > iou_threshold s \<and>
    (\<forall>(k, trk)\<in>set (tracks s1). k \<notin> result_ids res1 \<longrightarrow> calculate_iou B' (bbox trk) < calculate_iou B' B) \<longrightarrow>
      (\<exists>t. map track_id_of res1 = [t] \<and> map track_id_of res2 = [t] \<and>
           res1 = [tracked B t (hd cls) (hd confs)] \<and> res2 = [tracked B' t (hd cls') (hd confs')]))"
proof (intro conjI impI)
  assume a: "ring_wf r \<and> ring_update r [B] = (rres1, r1) \<and> ring_update r1 [B'] = (rres2, r2) \<and>
    ring_iou B B' \<ge> ring_iou_threshold r \<and>
    (\<forall>(k, trk)\<in>set (ring_tracks r1). k \<notin> fst ` set rres1 \<longrightarrow> ring_iou (face_bbox trk) B' < ring_iou B B')"
  then have wf: "ring_wf r" and up1: "ring_update r [B] = (rres1, r1)"
    and up2: "ring_update r1 [B'] = (rres2, r2)" and ge: "ring_iou B B' \<ge> ring_iou_threshold r"
    and others: "\<forall>(k, trk)\<in>set (ring_tracks r1). k \<notin> fst ` set rres1 \<longrightarrow>
                   ring_iou (face_bbox trk) B' < ring_iou B B'"
    by blast+
  from ring_update_single_track[OF wf up1] obtain t where res1: "rres1 = [(t, B)]"
    and t: "map_of (ring_tracks r1) t = Some \<lparr>face_bbox = B, missed = 0\<rparr>" by blast
  from ring_update_keys[OF wf up1] have wf1: "ring_wf r1"
    and thr: "ring_iou_threshold r1 = ring_iou_threshold r" by blast+
  from ge thr have ge1: "ring_iou (face_bbox \<lparr>face_bbox = B, missed = 0\<rparr>) B' \<ge> ring_iou_threshold r1"
    by simp
  from others res1 have o1: "\<forall>(k, trk')\<in>set (ring_tracks r1). k \<noteq> t \<longrightarrow>
       ring_iou (face_bbox trk') B' < ring_iou (face_bbox \<lparr>face_bbox = B, missed = 0\<rparr>) B'"
    by auto
  from ring_update_single_best[OF wf1 t ge1 o1] up2 have "rres2 = [(t, B')]" by simp
  with res1 show "\<exists>t. rres1 = [(t, B)] \<and> rres2 = [(t, B')]" by blast
next
  assume a: "wf_tracker s \<and> update now s [B] cls confs = Inr (res1, s1) \<and>
    update now' s1 [B'] cls' confs' = Inr (res2, s2) \<and>
    calculate_iou B' B > iou_threshold s \<and>
    (\<forall>(k, trk)\<in>set (tracks s1). k \<notin> result_ids res1 \<longrightarrow> calculate_iou B' (bbox trk) < calculate_iou B' B)"
  then have wf: "wf_tracker s" and up1: "update now s [B] cls confs = Inr (res1, s1)"
    and up2: "update now' s1 [B'] cls' confs' = Inr (res2, s2)"
    and gt: "calculate_iou B' B > iou_threshold s"
    and others: "\<forall>(k, trk)\<in>set (tracks s1). k \<notin> result_ids res1 \<longrightarrow>
                   calculate_iou B' (bbox trk) < calculate_iou B' B"
    by blast+
  from update_single_args[OF up1] obtain c cls0 cf confs0 where
    args1: "cls = c # cls0" "confs = cf # confs0" by blast
  from update_single_args[OF up2] obtain c' cls0' cf' confs0' where
    args2: "cls' = c' # cls0'" "confs' = cf' # confs0'" by blast
  define new where "new = \<lparr>bbox = B, missed_count = 0, class_id = c, conf = cf\<rparr>"
  from update_single_track[OF wf up1[unfolded args1]] obtain t where res1: "res1 = [tracked B t c cf]"
    and t: "map_of (tracks s1) t = Some new" unfolding new_def by blast
  from update_effect[OF wf up1] have wf1: "wf_tracker s1" and thr: "iou_threshold s1 = iou_threshold s"
    by blast+
  from gt thr have gt1: "calculate_iou B' (bbox new) > iou_threshold s1" by (simp add: new_def)
  from res1 have ids: "result_ids res1 = {t}" by (simp add: result_ids_def)
  from others have o1: "\<forall>(k, trk')\<in>set (tracks s1). k \<noteq> t \<longrightarrow>
       calculate_iou B' (bbox trk') < calculate_iou B' (bbox new)"
    unfolding ids by (auto simp: new_def)
  from update_single_best[OF wf1 t gt1 o1 up2[unfolded args2]] have res2: "res2 = [tracked B' t c' cf']" .
  from res1 res2 args1 args2
  show "\<exists>t. map track_id_of res1 = [t] \<and> map track_id_of res2 = [t] \<and>
           res1 = [tracked B t (hd cls) (hd confs)] \<and> res2 = [tracked B' t (hd cls') (hd confs')]"
    by simp
qed

text \<open>
  Both trackers new, with threshold 0.5, and the box (0, 0, 10, 10) in the first call.
  The RingScreen tracker keeps id 1 for (0, 0, 10, 5), whose IoU is exactly the
  threshold; the SideScreen tracker keeps id 1 for (0, 0, 10, 9), whose IoU is 0.9.
\<close>

theorem track_continuity_witness:
  "ring_wf (Ring_IoUTracker (1 / 2) 0) \<and>
   ring_update (Ring_IoUTracker (1 / 2) 0) [box_a] = ([(1, box_a)], ring_one) \<and>
   map fst (ring_tracks ring_one) = [1] \<and>
   ring_iou box_a box_half = ring_iou_threshold (Ring_IoUTracker (1 / 2) 0) \<and>
   fst (ring_update ring_one [box_half]) = [(1, box_half)] \<and>
   wf_tracker (IoUTracker (1 / 2) 0) \<and>
   update 0 (IoUTracker (1 / 2) 0) [box_a] [0] [9 / 10] = Inr ([(0, 0, 10, 10, 1, 0, 9 / 10)], one_track 0) \<and>
   map fst (tracks (one_track 0)) = [1] \<and>
   calculate_iou box_nine box_a = 9 / 10 \<and> iou_threshold (IoUTracker (1 / 2) 0) = 1 / 2 \<and>
   map_sum id fst (update 1 (one_track 0) [box_nine] [0] [9 / 10]) = Inr [(0, 0, 10, 9, 1, 0, 9 / 10)]"
proof -
  let ?r = "Ring_IoUTracker (1 / 2) 0"
  let ?s = "IoUTracker (1 / 2) 0"
  have rwf: "ring_wf ?r" by (simp add: ring_wf_def Ring_IoUTracker_def)
  have r1: "ring_update ?r [box_a] = ([(1, box_a)], ring_one)"
    by (simp add: ring_update_def Ring_IoUTracker_def ring_one_def ring_new_track_def)
  have r2: "ring_update ring_one [box_half] =
      (fst (ring_update ring_one [box_half]), snd (ring_update ring_one [box_half]))" by simp
  have rk: "map fst (ring_tracks ring_one) = [1]" by (simp add: ring_one_def)
  have riou: "ring_iou box_a box_half = ring_iou_threshold ?r"
    by (simp add: ring_iou_def box_a_def box_half_def Ring_IoUTracker_def Let_def)
  have ro: "\<forall>(k, trk)\<in>set (ring_tracks ring_one). k \<notin> fst ` set [(1, box_a)] \<longrightarrow>
      ring_iou (face_bbox trk) box_half < ring_iou box_a box_half"
    by (simp add: ring_one_def)
  have swf: "wf_tracker ?s" using new_tracker_invariants by blast
  have s1: "update 0 ?s [box_a] [0] [9 / 10] = Inr ([(0, 0, 10, 10, 1, 0, 9 / 10)], one_track 0)"
    by (rule one_track_reached)
  have sk: "map fst (tracks (one_track 0)) = [1]" by (simp add: one_track_def)
  have siou: "calculate_iou box_nine box_a = 9 / 10"
    by (simp add: calculate_iou_def box_a_def box_nine_def Let_def)
  have thr: "iou_threshold ?s = 1 / 2" by (simp add: IoUTracker_def)
  obtain res2 s2 where s2: "update 1 (one_track 0) [box_nine] [0] [9 / 10] = Inr (res2, s2)"
    by (simp add: update_def Let_def)
  have so: "\<forall>(k, trk)\<in>set (tracks (one_track 0)). k \<notin> result_ids [(0, 0, 10, 10, 1, 0, 9 / 10)] \<longrightarrow>
      calculate_iou box_nine (bbox trk) < calculate_iou box_nine box_a"
    by (simp add: one_track_def result_ids_def track_id_of_def)
  note tc = track_continuity[where r = ?r and B = box_a and ?rres1.0 = "[(1, box_a)]" and ?r1.0 = ring_one
      and B' = box_half and ?rres2.0 = "fst (ring_update ring_one [box_half])"
      and ?r2.0 = "snd (ring_update ring_one [box_half])"]
  from tc rwf r1 r2 riou ro have "\<exists>t. [(1, box_a)] = [(t, box_a)] \<and>
      fst (ring_update ring_one [box_half]) = [(t, box_half)]" by simp
  then have rc: "fst (ring_update ring_one [box_half]) = [(1, box_half)]" by auto
  note td = track_continuity[where s = ?s and B = box_a and now = 0 and cls = "[0]" and confs = "[9 / 10]"
      and ?res1.0 = "[(0, 0, 10, 10, 1, 0, 9 / 10)]" and ?s1.0 = "one_track 0" and now' = 1
      and B' = box_nine and cls' = "[0]" and confs' = "[9 / 10]" and ?res2.0 = res2 and ?s2.0 = s2]
  from siou thr have sgt: "calculate_iou box_nine box_a > iou_threshold ?s" by simp
  from td swf s1 s2 sgt so have "\<exists>t. map track_id_of [(0, 0, 10, 10, 1, 0, 9 / 10)] = [t] \<and>
      map track_id_of res2 = [t] \<and>
      [(0, 0, 10, 10, 1, 0, 9 / 10)] = [tracked box_a t (hd [0]) (hd [9 / 10])] \<and>
      res2 = [tracked box_nine t (hd [0]) (hd [9 / 10])]" by blast
  then have "res2 = [tracked box_nine 1 0 (9 / 10)]" by (auto simp: track_id_of_def)
  with s2 have sc: "map_sum id fst (update 1 (one_track 0) [box_nine] [0] [9 / 10]) =
      Inr [(0, 0, 10, 9, 1, 0, 9 / 10)]" by (simp add: tracked_def box_nine_def)
  from rwf r1 rk riou rc swf s1 sk siou thr sc show ?thesis by blast
qed

text \<open>
  C4 as stated fails for the SideScreen tracker at equality: with threshold 0.5 the box
  (0, 0, 10, 10) gets id 1, and the box (0, 0, 10, 5) of the next call, whose IoU with it
  is exactly 0.5, gets the new id 2.
\<close>

theorem side_threshold_counterexample:
  "update 0 (IoUTracker (1 / 2) 0) [box_a] [0] [9 / 10] = Inr ([(0, 0, 10, 10, 1, 0, 9 / 10)], one_track 0) \<and>
   calculate_iou box_half box_a = iou_threshold (one_track 0) \<and>
   calculate_iou box_a box_half = iou_threshold (one_track 0) \<and>
   map_sum id fst (update 1 (one_track 0) [box_half] [0] [9 / 10]) = Inr [(0, 0, 10, 5, 2, 0, 9 / 10)]"
proof -
  have a: "calculate_iou box_half box_a = 1 / 2" "calculate_iou box_a box_half = 1 / 2"
    by (simp_all add: calculate_iou_def box_a_def box_half_def Let_def)
  have b: "iou_threshold (one_track 0) = 1 / 2" by (simp add: one_track_def)
  have c: "map_sum id fst (update 1 (one_track 0) [box_half] [0] [9 / 10]) = Inr [(0, 0, 10, 5, 2, 0, 9 / 10)]"
    by (simp add: update_def one_track_def match_detection_def new_track_def tracked_def
        a[unfolded box_half_def] Let_def box_half_def)
  from one_track_reached[of 0] a b c show ?thesis by simp
qed

end
